theory Spec2Isabelle
  imports Main "HOL-Library.AList" "HOL-Library.Char_ord"
begin

section \<open>Strings\<close>

text \<open>
  A Python \<^verbatim>\<open>str\<close> is a sequence of Unicode code points, each the integer that
  \<^verbatim>\<open>ord\<close> gives. The strings \<^verbatim>\<open>server.py\<close> lower-cases, strips, splits or matches
  against a regular expression, and those built from them (the names of centers and
  documents, slugs, file names and paths) are lists of code points. \<open>u\<close> writes such a
  list from a literal. Strings the program only stores, compares and concatenates (ids,
  colours, time stamps, messages) are Isabelle strings.

  \<^verbatim>\<open>str.lower\<close> is the Unicode case mapping of the runtime; its tables are no part of the
  repository, so wherever the program calls it the model takes it as an argument,
  \<open>lower_fn\<close>, and nothing is assumed about it unless a statement says so.
\<close>

type_synonym ustring = "int list"

definition u :: "string \<Rightarrow> ustring" where
  "u s = map of_char s"

text \<open>
  \<^verbatim>\<open>str.strip()\<close> removes white space from both ends: the code points for which
  \<^verbatim>\<open>str.isspace\<close> holds, U+0009 to U+000D, U+001C to U+0020, U+0085, U+00A0, U+1680,
  U+2000 to U+200A, U+2028, U+2029, U+202F, U+205F and U+3000.
  \<^verbatim>\<open>str.strip('-')\<close> removes hyphens (U+002D) from both ends.
\<close>

definition py_space :: "int \<Rightarrow> bool" where
  "py_space c =
     ((0x09 \<le> c \<and> c \<le> 0x0D) \<or> (0x1C \<le> c \<and> c \<le> 0x20) \<or> c = 0x85 \<or> c = 0xA0
      \<or> c = 0x1680 \<or> (0x2000 \<le> c \<and> c \<le> 0x200A) \<or> c = 0x2028 \<or> c = 0x2029
      \<or> c = 0x202F \<or> c = 0x205F \<or> c = 0x3000)"

definition strip_chars :: "('a \<Rightarrow> bool) \<Rightarrow> 'a list \<Rightarrow> 'a list" where
  "strip_chars P s = rev (dropWhile P (rev (dropWhile P s)))"

definition is_hyphen :: "int \<Rightarrow> bool" where
  "is_hyphen c = (c = 0x2D)"

text \<open>
  The character class \<^verbatim>\<open>[a-z0-9]\<close> of the regular expression in \<^verbatim>\<open>make_slug\<close>:
  U+0061 to U+007A and U+0030 to U+0039.
\<close>

definition slug_char :: "int \<Rightarrow> bool" where
  "slug_char c = ((0x61 \<le> c \<and> c \<le> 0x7A) \<or> (0x30 \<le> c \<and> c \<le> 0x39))"

text \<open>
  \<^verbatim>\<open>re.sub(r'[^a-z0-9]+', '-', s)\<close>: every maximal run of code points outside the
  class becomes one hyphen.
\<close>

function re_sub_hyphen :: "ustring \<Rightarrow> ustring" where
  "re_sub_hyphen [] = []"
| "re_sub_hyphen (c # cs) =
     (if slug_char c then c # re_sub_hyphen cs
      else 0x2D # re_sub_hyphen (dropWhile (\<lambda>x. \<not> slug_char x) cs))"
  by pat_completeness auto
termination
  by (relation "measure length") (auto simp: le_imp_less_Suc length_dropWhile_le)

text \<open>\<^verbatim>\<open>str(n)\<close> for a non-negative integer: its decimal digits.\<close>

fun str_nat :: "nat \<Rightarrow> string" where
  "str_nat n =
     (if n < 10 then [char_of (48 + n)]
      else str_nat (n div 10) @ [char_of (48 + n mod 10)])"

declare str_nat.simps [simp del]

text \<open>
  The first two lines of \<^verbatim>\<open>make_slug\<close>:
  \<^verbatim>\<open>slug = name.lower().strip(); slug = re.sub(r'[^a-z0-9]+', '-', slug).strip('-')\<close>.
\<close>

definition slugify :: "(ustring \<Rightarrow> ustring) \<Rightarrow> ustring \<Rightarrow> ustring" where
  "slugify lower_fn name_in =
     strip_chars is_hyphen (re_sub_hyphen (strip_chars py_space (lower_fn name_in)))"

text \<open>
  The slug as the specification words it: lowercase the name, replace every run of
  non-alphanumeric characters with a single hyphen, trim leading and trailing hyphens.
  Which code points are letters or digits is a matter of the Unicode character database,
  as lower-casing is: \<open>alnum\<close> is the predicate that tells them, an argument like
  \<open>lower_fn\<close>.
\<close>

fun hyphenate_runs :: "(int \<Rightarrow> bool) \<Rightarrow> bool \<Rightarrow> ustring \<Rightarrow> ustring" where
  "hyphenate_runs alnum in_run [] = []"
| "hyphenate_runs alnum in_run (c # cs) =
     (if alnum c then c # hyphenate_runs alnum False cs
      else if in_run then hyphenate_runs alnum True cs
      else 0x2D # hyphenate_runs alnum True cs)"

definition trim_hyphens :: "ustring \<Rightarrow> ustring" where
  "trim_hyphens s = rev (dropWhile is_hyphen (rev (dropWhile is_hyphen s)))"

definition slug_spec :: "(int \<Rightarrow> bool) \<Rightarrow> (ustring \<Rightarrow> ustring) \<Rightarrow> ustring \<Rightarrow> ustring" where
  "slug_spec alnum lower_fn name_in =
     trim_hyphens (hyphenate_runs alnum False (lower_fn name_in))"

text \<open>
  \<^verbatim>\<open>os.path.splitext(filename)[1]\<close> on POSIX paths: the extension starts at the last
  dot (U+002E) of the last path component (what follows the last U+002F), provided some
  character other than a dot precedes it in that component; otherwise it is empty.
\<close>

definition basename :: "ustring \<Rightarrow> ustring" where
  "basename p = rev (takeWhile (\<lambda>c. c \<noteq> 0x2F) (rev p))"

definition splitext_ext :: "ustring \<Rightarrow> ustring" where
  "splitext_ext p =
     (let stem = dropWhile (\<lambda>c. c = 0x2E) (basename p) in
      if 0x2E \<in> set stem
      then 0x2E # rev (takeWhile (\<lambda>c. c \<noteq> 0x2E) (rev stem))
      else [])"

section \<open>Data model\<close>

type_synonym ident = string

datatype doc_kind = Excel | Word

record page =
  title :: string
  html :: string

record document =
  d_id :: ident
  d_name :: ustring
  originalName :: ustring
  d_type :: doc_kind
  pages :: "page list"
  uploadedAt :: string
  filePath :: ustring

text \<open>The value stored under \<^verbatim>\<open>center['assignedDoc']\<close>: a copy of three fields.\<close>

record assigned_doc =
  a_id :: ident
  a_name :: ustring
  a_type :: doc_kind

record center =
  c_id :: ident
  c_name :: ustring
  slug :: ustring
  color :: string
  assignedDoc :: "assigned_doc option"
  currentPage :: int
  connected :: bool
  createdAt :: string

record summary =
  s_id :: ident
  s_name :: ustring
  s_type :: doc_kind
  pageCount :: nat
  s_uploadedAt :: string

text \<open>The messages the server sends over a live channel.\<close>

datatype message =
    INIT "center list" "summary list"
  | CENTER_ADDED center
  | CENTER_UPDATED center
  | CENTER_DELETED ident
  | DOCUMENT_ADDED summary
  | DOCUMENT_DELETED ident
  | DOCUMENT_ASSIGNED document int
  | DOCUMENT_REMOVED
  | PAGE_CHANGE int int

text \<open>The messages a live channel sends to the server; anything else is \<open>OTHER\<close>.\<close>

datatype inbound =
    REGISTER_DASHBOARD
  | REGISTER_DISPLAY "ident option"
  | OTHER

datatype role = Dashboard | Display

text \<open>
  A websocket, as far as the server can observe it: whether the channel is closed,
  so that \<^verbatim>\<open>ws.send\<close> raises, and the messages delivered through it so far. Each
  websocket belongs to exactly one entry of \<^verbatim>\<open>clients\<close>, so it is kept inside it.
\<close>

record socket =
  ws_closed :: bool
  received :: "message list"

record client =
  ws :: socket
  role :: "role option"
  centerId :: "ident option"

text \<open>
  The three module-level dictionaries, in insertion order, and the paths of the files
  in the upload directory.
\<close>

record state =
  centers :: "(ident \<times> center) list"
  documents :: "(ident \<times> document) list"
  clients :: "(ident \<times> client) list"
  files :: "ustring set"

datatype response =
    Success
  | SuccessCenter center
  | SuccessDocument summary
  | SuccessPage int
  | Failure nat string

section \<open>Helpers\<close>

definition ws_send :: "socket \<Rightarrow> message \<Rightarrow> socket option" where
  "ws_send w msg = (if ws_closed w then None else Some (w\<lparr>received := received w @ [msg]\<rparr>))"

text \<open>
  The first loop of \<^verbatim>\<open>broadcast\<close> and of \<^verbatim>\<open>notify_center\<close>: try to send to every
  selected entry in order and collect the ids whose send raised.
\<close>

fun send_loop ::
  "(client \<Rightarrow> bool) \<Rightarrow> message \<Rightarrow> (ident \<times> client) list \<Rightarrow> (ident \<times> client) list \<times> ident list"
where
  "send_loop sel msg [] = ([], [])"
| "send_loop sel msg ((cid, c) # rest) =
     (case send_loop sel msg rest of (rest', dead) \<Rightarrow>
        if sel c then
          (case ws_send (ws c) msg of
             Some w \<Rightarrow> ((cid, c\<lparr>ws := w\<rparr>) # rest', dead)
           | None \<Rightarrow> ((cid, c) # rest', cid # dead))
        else ((cid, c) # rest', dead))"

text \<open>The second loop: \<^verbatim>\<open>for cid in dead: clients.pop(cid, None)\<close>.\<close>

fun pop_all :: "ident list \<Rightarrow> (ident \<times> client) list \<Rightarrow> (ident \<times> client) list" where
  "pop_all [] cl = cl"
| "pop_all (cid # dead) cl = pop_all dead (AList.delete cid cl)"

definition broadcast :: "message \<Rightarrow> (ident \<times> client) list \<Rightarrow> (ident \<times> client) list" where
  "broadcast msg cl = (case send_loop (\<lambda>c. True) msg cl of (cl', dead) \<Rightarrow> pop_all dead cl')"

definition notify_center ::
  "ident \<Rightarrow> message \<Rightarrow> (ident \<times> client) list \<Rightarrow> (ident \<times> client) list" where
  "notify_center center_id msg cl =
     (case send_loop (\<lambda>c. centerId c = Some center_id) msg cl of
        (cl', dead) \<Rightarrow> pop_all dead cl')"

definition doc_summary :: "document \<Rightarrow> summary" where
  "doc_summary doc =
     \<lparr>s_id = d_id doc, s_name = d_name doc, s_type = d_type doc,
      pageCount = length (pages doc), s_uploadedAt = uploadedAt doc\<rparr>"

text \<open>
  \<^verbatim>\<open>f"{base}-{counter}"\<close>. Different counters give different strings, which is what
  makes the loop of \<^verbatim>\<open>make_slug\<close> end: only finitely many of them can be taken.
\<close>

definition suffixed :: "ustring \<Rightarrow> nat \<Rightarrow> ustring" where
  "suffixed base counter = base @ u ''-'' @ u (str_nat counter)"

lemma str_nat_nonempty: "str_nat n \<noteq> []"
  by (subst str_nat.simps) simp

lemma digit_char_inj:
  assumes "a < 10" and "b < 10"
    and e: "char_of (48 + a :: nat) = (char_of (48 + b) :: char)"
  shows "a = b"
proof -
  have "of_char (char_of (48 + a) :: char) = (of_char (char_of (48 + b) :: char) :: nat)"
    using e by simp
  then have "(48 + a) mod 256 = (48 + b) mod 256"
    by (simp only: of_char_of)
  then show "a = b" using assms(1,2) by simp
qed

lemma str_nat_inj: "str_nat n = str_nat m \<Longrightarrow> n = m"
proof (induction n arbitrary: m rule: str_nat.induct)
  case (1 n)
  show ?case
  proof (cases "n < 10")
    case True
    then have sn: "str_nat n = [char_of (48 + n)]" by (subst str_nat.simps) simp
    show ?thesis
    proof (cases "m < 10")
      case mt: True
      then have "str_nat m = [char_of (48 + m)]" by (subst str_nat.simps) simp
      with sn "1.prems" have "char_of (48 + n) = (char_of (48 + m) :: char)" by simp
      with True mt show ?thesis by (rule digit_char_inj)
    next
      case mf: False
      then have "str_nat m = str_nat (m div 10) @ [char_of (48 + m mod 10)]"
        by (subst str_nat.simps) simp
      with sn "1.prems" str_nat_nonempty[of "m div 10"] show ?thesis
        by (cases "str_nat (m div 10)") auto
    qed
  next
    case False
    then have sn: "str_nat n = str_nat (n div 10) @ [char_of (48 + n mod 10)]"
      by (subst str_nat.simps) simp
    show ?thesis
    proof (cases "m < 10")
      case mt: True
      then have "str_nat m = [char_of (48 + m)]" by (subst str_nat.simps) simp
      with sn "1.prems" str_nat_nonempty[of "n div 10"] show ?thesis
        by (cases "str_nat (n div 10)") auto
    next
      case mf: False
      then have "str_nat m = str_nat (m div 10) @ [char_of (48 + m mod 10)]"
        by (subst str_nat.simps) simp
      with sn "1.prems" have e1: "str_nat (n div 10) = str_nat (m div 10)"
        and e2: "char_of (48 + n mod 10) = (char_of (48 + m mod 10) :: char)" by auto
      from "1.IH"[OF False e1] have d: "n div 10 = m div 10" .
      from e2 have "n mod 10 = m mod 10" by (intro digit_char_inj) auto
      with d show ?thesis by (metis div_mult_mod_eq)
    qed
  qed
qed

lemma u_inj: "u a = u b \<Longrightarrow> a = b"
  unfolding u_def by (simp add: inj_map_eq_map inj_on_def)

lemma suffixed_inj: "inj (suffixed base)"
  by (auto simp: inj_def suffixed_def dest: u_inj str_nat_inj)

lemma finite_suffixed_taken: "finite {k. suffixed base k \<in> set taken}"
proof -
  have "{k. suffixed base k \<in> set taken} = suffixed base -` set taken" by auto
  then show ?thesis using finite_vimageI[OF finite_set suffixed_inj] by metis
qed

text \<open>
  The loop of \<^verbatim>\<open>make_slug\<close>; \<open>taken\<close> is the list of the slugs of
  \<^verbatim>\<open>centers.values()\<close>, \<open>slug_now\<close> the candidate and \<open>counter\<close> the next suffix.
\<close>

function slug_loop :: "ustring list \<Rightarrow> ustring \<Rightarrow> ustring \<Rightarrow> nat \<Rightarrow> ustring" where
  "slug_loop taken base slug_now counter =
     (if slug_now \<in> set taken
      then slug_loop taken base (suffixed base counter) (counter + 1)
      else slug_now)"
  by pat_completeness auto
termination
proof (relation "measure (\<lambda>(taken, base, slug_now, counter).
          card {k. counter \<le> k \<and> suffixed base k \<in> set taken}
          + (if slug_now \<in> set taken then 1 else 0))", goal_cases)
  case 1
  show ?case by simp
next
  case (2 taken base slug_now counter)
  let ?A = "\<lambda>c. {k. c \<le> k \<and> suffixed base k \<in> set taken}"
  have fin: "finite (?A counter)"
    by (rule finite_subset[OF _ finite_suffixed_taken[of base taken]]) auto
  have step: "?A (counter + 1) = ?A counter - {counter}" by auto
  show ?case
  proof (cases "suffixed base counter \<in> set taken")
    case True
    then have "counter \<in> ?A counter" by simp
    then have "card (?A (counter + 1)) < card (?A counter)"
      unfolding step using fin by (meson card_Diff1_less)
    with 2 True show ?thesis by simp
  next
    case False
    then have "?A (counter + 1) = ?A counter"
      by (auto simp: le_Suc_eq) (metis Suc_leI le_neq_implies_less)
    with 2 False show ?thesis by simp
  qed
qed

declare slug_loop.simps [simp del]

definition make_slug ::
  "(ustring \<Rightarrow> ustring) \<Rightarrow> (ident \<times> center) list \<Rightarrow> ustring \<Rightarrow> ustring" where
  "make_slug lower_fn cs name_in =
     (let base = slugify lower_fn name_in
      in slug_loop (map (\<lambda>(k, c). slug c) cs) base base 2)"

section \<open>The HTTP handlers\<close>

text \<open>
  Every handler takes the state and returns the new state and the response. Values the
  handler reads from its environment (the fresh \<^verbatim>\<open>uuid4\<close>, the clock, the parsers'
  verdict on the uploaded bytes, whether the disk took the file) are arguments.
  \<^verbatim>\<open>api_login_required\<close> stands in front of the handlers of this section; they are
  modelled for a logged-in session.
\<close>

definition api_login_required ::
  "bool \<Rightarrow> (state \<Rightarrow> state \<times> response) \<Rightarrow> state \<Rightarrow> state \<times> response" where
  "api_login_required logged_in f s =
     (if \<not> logged_in then (s, Failure 401 ''Unauthorised'') else f s)"

definition UPLOAD_DIR :: ustring where
  "UPLOAD_DIR = u ''uploads''"

definition path_join :: "ustring \<Rightarrow> ustring \<Rightarrow> ustring" where
  "path_join dir file = dir @ u ''/'' @ file"

definition allowed_ext :: "ustring list" where
  "allowed_ext = [u ''.xlsx'', u ''.xls'', u ''.docx'', u ''.doc'']"

definition upload_path :: "nat \<Rightarrow> ustring \<Rightarrow> ustring" where
  "upload_path stamp filename = path_join UPLOAD_DIR (u (str_nat stamp) @ u ''_'' @ filename)"

text \<open>
  \<^verbatim>\<open>upload_document\<close>. \<open>parse_excel\<close> and \<open>parse_word\<close> stand for the two parsers
  applied to the saved bytes: \<open>Inl e\<close> when the parser raises with message \<open>e\<close>,
  \<open>Inr ps\<close> when it returns the pages \<open>ps\<close>. \<open>upload\<close> is \<^verbatim>\<open>request.files['file']\<close>
  (file name and bytes) when present, \<open>form_name\<close> is \<^verbatim>\<open>request.form['name']\<close>,
  \<open>lower_fn\<close> is \<^verbatim>\<open>str.lower\<close>.
  \<open>save\<close> is what became of \<^verbatim>\<open>file.save(filepath)\<close>, which stands before the
  \<^verbatim>\<open>try\<close>: the file was written, or the call raised, either before anything was
  written (the path cannot be opened, as for a file name with a directory in it) or
  after part of the file was. A raise there is not caught, and the request is answered
  with status 500. \<^verbatim>\<open>os.remove(filepath)\<close> in the handler of a parser's exception
  removes the file that \<^verbatim>\<open>file.save\<close> has just written under that path.
\<close>

datatype save_outcome = Saved | Refused | Truncated

definition upload_document ::
  "(ustring \<Rightarrow> ustring) \<Rightarrow> (string \<Rightarrow> string + page list) \<Rightarrow> (string \<Rightarrow> string + page list)
   \<Rightarrow> nat \<Rightarrow> string \<Rightarrow> ident \<Rightarrow> (ustring \<times> string) option \<Rightarrow> ustring option
   \<Rightarrow> save_outcome \<Rightarrow> state \<Rightarrow> state \<times> response" where
  "upload_document lower_fn parse_excel parse_word stamp now new_id upload form_name save s =
     (case upload of
        None \<Rightarrow> (s, Failure 400 ''No file uploaded'')
      | Some (filename, bytes) \<Rightarrow>
          let ext = lower_fn (splitext_ext filename) in
          if ext \<notin> set allowed_ext then (s, Failure 400 ''Only Excel and Word files allowed'')
          else
            let filepath = upload_path stamp filename in
            (case save of
               Refused \<Rightarrow> (s, Failure 500 ''Internal Server Error'')
             | Truncated \<Rightarrow>
                 (s\<lparr>files := insert filepath (files s)\<rparr>, Failure 500 ''Internal Server Error'')
             | Saved \<Rightarrow>
                 let s1 = s\<lparr>files := insert filepath (files s)\<rparr>;
                     parsed =
                       (if ext \<in> set [u ''.xlsx'', u ''.xls'']
                        then (case parse_excel bytes of
                                Inl e \<Rightarrow> Inl e | Inr ps \<Rightarrow> Inr (ps, Excel))
                        else (case parse_word bytes of
                                Inl e \<Rightarrow> Inl e | Inr ps \<Rightarrow> Inr (ps, Word)))
                 in (case parsed of
                       Inl e \<Rightarrow>
                         (s1\<lparr>files := files s1 - {filepath}\<rparr>,
                          Failure 500 (''Failed to parse file: '' @ e))
                     | Inr (ps, kind) \<Rightarrow>
                         let doc = \<lparr>d_id = new_id,
                                    d_name = (case form_name of None \<Rightarrow> filename | Some n \<Rightarrow> n),
                                    originalName = filename, d_type = kind, pages = ps,
                                    uploadedAt = now, filePath = filepath\<rparr>;
                             s2 = s1\<lparr>documents := AList.update (d_id doc) doc (documents s1)\<rparr>;
                             s3 = s2\<lparr>clients :=
                                      broadcast (DOCUMENT_ADDED (doc_summary doc)) (clients s2)\<rparr>
                         in (s3, SuccessDocument (doc_summary doc)))))"

text \<open>
  The loop of \<^verbatim>\<open>delete_document\<close> over \<^verbatim>\<open>centers.values()\<close>: each center that
  references the document is cleared in place, its displays are notified and the
  cleared center is broadcast, before the next center is looked at.
\<close>

definition references :: "ident \<Rightarrow> center \<Rightarrow> bool" where
  "references doc_id c = (case assignedDoc c of None \<Rightarrow> False | Some a \<Rightarrow> a_id a = doc_id)"

definition cleared :: "center \<Rightarrow> center" where
  "cleared c = c\<lparr>assignedDoc := None, currentPage := 0\<rparr>"

fun cascade ::
  "ident \<Rightarrow> (ident \<times> center) list \<Rightarrow> (ident \<times> client) list
   \<Rightarrow> (ident \<times> center) list \<times> (ident \<times> client) list" where
  "cascade doc_id [] cl = ([], cl)"
| "cascade doc_id ((k, c) # cs) cl =
     (if references doc_id c then
        (let c' = cleared c;
             cl1 = notify_center (c_id c') DOCUMENT_REMOVED cl;
             cl2 = broadcast (CENTER_UPDATED c') cl1
         in (case cascade doc_id cs cl2 of (cs', cl3) \<Rightarrow> ((k, c') # cs', cl3)))
      else (case cascade doc_id cs cl of (cs', cl3) \<Rightarrow> ((k, c) # cs', cl3)))"

definition delete_document :: "ident \<Rightarrow> state \<Rightarrow> state \<times> response" where
  "delete_document doc_id s =
     (case map_of (documents s) doc_id of
        None \<Rightarrow> (s, Failure 404 ''Not found'')
      | Some doc \<Rightarrow>
          (case cascade doc_id (centers s) (clients s) of (cs', cl') \<Rightarrow>
             let s1 = s\<lparr>centers := cs', clients := cl'\<rparr>;
                 s2 = s1\<lparr>files := files s1 - {filePath doc}\<rparr>;
                 s3 = s2\<lparr>documents := AList.delete doc_id (documents s2)\<rparr>;
                 s4 = s3\<lparr>clients := broadcast (DOCUMENT_DELETED doc_id) (clients s3)\<rparr>
             in (s4, Success)))"

text \<open>
  \<^verbatim>\<open>create_center\<close>: \<open>name_in\<close> is \<^verbatim>\<open>data.get('name', '')\<close>, \<open>color_in\<close> is
  \<^verbatim>\<open>data['color']\<close> when the key is there, \<open>lower_fn\<close> is \<^verbatim>\<open>str.lower\<close>.
\<close>

definition create_center ::
  "(ustring \<Rightarrow> ustring) \<Rightarrow> string \<Rightarrow> ident \<Rightarrow> ustring \<Rightarrow> string option
   \<Rightarrow> state \<Rightarrow> state \<times> response" where
  "create_center lower_fn now new_id name_in color_in s =
     (let nm = strip_chars py_space name_in in
      if nm = [] then (s, Failure 400 ''Name required'')
      else
        let c = \<lparr>c_id = new_id, c_name = nm, slug = make_slug lower_fn (centers s) nm,
                 color = (case color_in of None \<Rightarrow> ''#2563eb'' | Some x \<Rightarrow> x),
                 assignedDoc = None, currentPage = 0, connected = False, createdAt = now\<rparr>;
            s1 = s\<lparr>centers := AList.update (c_id c) c (centers s)\<rparr>;
            s2 = s1\<lparr>clients := broadcast (CENTER_ADDED c) (clients s1)\<rparr>
        in (s2, SuccessCenter c))"

definition update_center ::
  "ident \<Rightarrow> ustring option \<Rightarrow> string option \<Rightarrow> state \<Rightarrow> state \<times> response" where
  "update_center center_id name_in color_in s =
     (case map_of (centers s) center_id of
        None \<Rightarrow> (s, Failure 404 ''Not found'')
      | Some c \<Rightarrow>
          let c1 = (case name_in of None \<Rightarrow> c | Some n \<Rightarrow> c\<lparr>c_name := n\<rparr>);
              c2 = (case color_in of None \<Rightarrow> c1 | Some x \<Rightarrow> c1\<lparr>color := x\<rparr>);
              s1 = s\<lparr>centers := AList.update center_id c2 (centers s)\<rparr>;
              s2 = s1\<lparr>clients := broadcast (CENTER_UPDATED c2) (clients s1)\<rparr>
          in (s2, SuccessCenter c2))"

definition delete_center :: "ident \<Rightarrow> state \<Rightarrow> state \<times> response" where
  "delete_center center_id s =
     (if center_id \<notin> set (map fst (centers s)) then (s, Failure 404 ''Not found'')
      else
        let s1 = s\<lparr>centers := AList.delete center_id (centers s)\<rparr>;
            s2 = s1\<lparr>clients := broadcast (CENTER_DELETED center_id) (clients s1)\<rparr>
        in (s2, Success))"

text \<open>
  \<^verbatim>\<open>doc_id = data.get('documentId')\<close> followed by \<^verbatim>\<open>if not doc_id\<close>: an absent,
  null or empty id means that no document is given.
\<close>

definition given_id :: "ident option \<Rightarrow> ident option" where
  "given_id r = (case r of None \<Rightarrow> None | Some d \<Rightarrow> if d = [] then None else Some d)"

definition assign_document :: "ident \<Rightarrow> ident option \<Rightarrow> state \<Rightarrow> state \<times> response" where
  "assign_document center_id doc_ref s =
     (case map_of (centers s) center_id of
        None \<Rightarrow> (s, Failure 404 ''Center not found'')
      | Some c \<Rightarrow>
          (case given_id doc_ref of
             None \<Rightarrow>
               let c' = c\<lparr>assignedDoc := None, currentPage := 0\<rparr>;
                   s1 = s\<lparr>centers := AList.update center_id c' (centers s)\<rparr>;
                   s2 = s1\<lparr>clients := notify_center center_id DOCUMENT_REMOVED (clients s1)\<rparr>;
                   s3 = s2\<lparr>clients := broadcast (CENTER_UPDATED c') (clients s2)\<rparr>
               in (s3, SuccessCenter c')
           | Some doc_id \<Rightarrow>
               (case map_of (documents s) doc_id of
                  None \<Rightarrow> (s, Failure 404 ''Document not found'')
                | Some doc \<Rightarrow>
                    let c' = c\<lparr>assignedDoc :=
                                 Some \<lparr>a_id = d_id doc, a_name = d_name doc, a_type = d_type doc\<rparr>,
                               currentPage := 0\<rparr>;
                        s1 = s\<lparr>centers := AList.update center_id c' (centers s)\<rparr>;
                        s2 = s1\<lparr>clients :=
                                 notify_center center_id (DOCUMENT_ASSIGNED doc 0) (clients s1)\<rparr>;
                        s3 = s2\<lparr>clients := broadcast (CENTER_UPDATED c') (clients s2)\<rparr>
                    in (s3, SuccessCenter c'))))"

text \<open>
  \<^verbatim>\<open>set_page\<close>: \<open>page_in\<close> is the integer under \<^verbatim>\<open>'page'\<close> in the request body
  when the key is there. Python integers are unbounded and \<^verbatim>\<open>int\<close> of an integer is
  that integer, but the body is decoded when \<^verbatim>\<open>request.json\<close> is first read, after
  the three checks, and the decoder refuses an integer literal of more than 4300 digits
  (the sign not counted): the request is then answered with status 400 and nothing is
  changed.
\<close>

definition INT_MAX_STR_DIGITS :: nat where
  "INT_MAX_STR_DIGITS = 4300"

definition int_digits :: "int \<Rightarrow> nat" where
  "int_digits p = length (str_nat (nat \<bar>p\<bar>))"

definition decodable :: "int option \<Rightarrow> bool" where
  "decodable page_in =
     (case page_in of None \<Rightarrow> True | Some p \<Rightarrow> int_digits p \<le> INT_MAX_STR_DIGITS)"

definition set_page :: "ident \<Rightarrow> int option \<Rightarrow> state \<Rightarrow> state \<times> response" where
  "set_page center_id page_in s =
     (case map_of (centers s) center_id of
        None \<Rightarrow> (s, Failure 404 ''Center not found'')
      | Some c \<Rightarrow>
          (case assignedDoc c of
             None \<Rightarrow> (s, Failure 400 ''No document assigned'')
           | Some a \<Rightarrow>
               (case map_of (documents s) (a_id a) of
                  None \<Rightarrow> (s, Failure 404 ''Document not found'')
                | Some doc \<Rightarrow>
                    if \<not> decodable page_in then (s, Failure 400 ''Bad Request'')
                    else
                      let page_no = (case page_in of None \<Rightarrow> 0 | Some p \<Rightarrow> p);
                          max_page = int (length (pages doc)) - 1;
                          c' = c\<lparr>currentPage := max 0 (min page_no max_page)\<rparr>;
                          s1 = s\<lparr>centers := AList.update center_id c' (centers s)\<rparr>;
                          s2 = s1\<lparr>clients :=
                                   notify_center center_id
                                     (PAGE_CHANGE (currentPage c') (int (length (pages doc))))
                                     (clients s1)\<rparr>;
                          s3 = s2\<lparr>clients := broadcast (CENTER_UPDATED c') (clients s2)\<rparr>
                      in (s3, SuccessPage (currentPage c')))))"

section \<open>The live channel\<close>

text \<open>
  \<^verbatim>\<open>websocket\<close> up to its receive loop: the new entry is registered unbound, then the
  initial snapshot is sent; when that send raises the handler returns and the entry
  stays behind.
\<close>

definition ws_connect :: "ident \<Rightarrow> socket \<Rightarrow> state \<Rightarrow> state" where
  "ws_connect client_id w s =
     (let s1 = s\<lparr>clients :=
                  AList.update client_id \<lparr>ws = w, role = None, centerId = None\<rparr> (clients s)\<rparr>
      in (case ws_send w (INIT (map snd (centers s1)) (map (\<lambda>(k, d). doc_summary d) (documents s1))) of
            None \<Rightarrow> s1
          | Some w' \<Rightarrow>
              s1\<lparr>clients :=
                   AList.update client_id \<lparr>ws = w', role = None, centerId = None\<rparr> (clients s1)\<rparr>))"

text \<open>
  \<^verbatim>\<open>handle_message\<close>. The entry is changed in place. The last send goes to the
  websocket of the entry fetched at the start; when the broadcast before it has pruned
  that entry its channel is closed, the send raises and the exception is swallowed.
\<close>

definition handle_message :: "ident \<Rightarrow> inbound \<Rightarrow> state \<Rightarrow> state" where
  "handle_message client_id msg s =
     (case map_of (clients s) client_id of
        None \<Rightarrow> s
      | Some client \<Rightarrow>
          (case msg of
             REGISTER_DASHBOARD \<Rightarrow>
               s\<lparr>clients := AList.update client_id (client\<lparr>role := Some Dashboard\<rparr>) (clients s)\<rparr>
           | REGISTER_DISPLAY center_ref \<Rightarrow>
               let client' = client\<lparr>role := Some Display, centerId := center_ref\<rparr>;
                   s1 = s\<lparr>clients := AList.update client_id client' (clients s)\<rparr>
               in (case center_ref of
                     None \<Rightarrow> s1
                   | Some center_id \<Rightarrow>
                       (case map_of (centers s1) center_id of
                          None \<Rightarrow> s1
                        | Some c \<Rightarrow>
                            let c' = c\<lparr>connected := True\<rparr>;
                                s2 = s1\<lparr>centers := AList.update center_id c' (centers s1)\<rparr>;
                                s3 = s2\<lparr>clients := broadcast (CENTER_UPDATED c') (clients s2)\<rparr>
                            in (case assignedDoc c' of
                                  None \<Rightarrow> s3
                                | Some a \<Rightarrow>
                                    (case map_of (documents s3) (a_id a) of
                                       None \<Rightarrow> s3
                                     | Some doc \<Rightarrow>
                                         (case map_of (clients s3) client_id of
                                            None \<Rightarrow> s3
                                          | Some cl \<Rightarrow>
                                              (case ws_send (ws cl)
                                                      (DOCUMENT_ASSIGNED doc (currentPage c')) of
                                                 None \<Rightarrow> s3
                                               | Some w \<Rightarrow>
                                                   s3\<lparr>clients :=
                                                        AList.update client_id (cl\<lparr>ws := w\<rparr>)
                                                          (clients s3)\<rparr>))))))
           | OTHER \<Rightarrow> s))"

text \<open>The \<^verbatim>\<open>finally\<close> block of \<^verbatim>\<open>websocket\<close>, run when the channel closes.\<close>

definition ws_disconnect :: "ident \<Rightarrow> state \<Rightarrow> state" where
  "ws_disconnect client_id s =
     (case map_of (clients s) client_id of
        None \<Rightarrow> s
      | Some client \<Rightarrow>
          let s1 = s\<lparr>clients := AList.delete client_id (clients s)\<rparr>
          in (case given_id (centerId client) of
                None \<Rightarrow> s1
              | Some cid \<Rightarrow>
                  (case map_of (centers s1) cid of
                     None \<Rightarrow> s1
                   | Some c \<Rightarrow>
                       let c' = c\<lparr>connected := False\<rparr>;
                           s2 = s1\<lparr>centers := AList.update cid c' (centers s1)\<rparr>
                       in s2\<lparr>clients := broadcast (CENTER_UPDATED c') (clients s2)\<rparr>)))"

text \<open>The environment: the channel of an entry closes, so that later sends raise.\<close>

definition ws_close :: "ident \<Rightarrow> state \<Rightarrow> state" where
  "ws_close client_id s =
     (case map_of (clients s) client_id of
        None \<Rightarrow> s
      | Some client \<Rightarrow>
          s\<lparr>clients :=
              AList.update client_id (client\<lparr>ws := (ws client)\<lparr>ws_closed := True\<rparr>\<rparr>) (clients s)\<rparr>)"

section \<open>Reachable states\<close>

definition init :: "ustring set \<Rightarrow> state" where
  "init on_disk = \<lparr>centers = [], documents = [], clients = [], files = on_disk\<rparr>"

inductive reachable :: "state \<Rightarrow> bool" where
  r_init: "reachable (init on_disk)"
| r_upload: "reachable s \<Longrightarrow>
     reachable (fst (upload_document lower_fn parse_excel parse_word stamp now new_id upload
                       form_name save s))"
| r_delete_document: "reachable s \<Longrightarrow> reachable (fst (delete_document doc_id s))"
| r_create_center: "reachable s \<Longrightarrow>
     reachable (fst (create_center lower_fn now new_id name_in color_in s))"
| r_update_center: "reachable s \<Longrightarrow> reachable (fst (update_center center_id name_in color_in s))"
| r_delete_center: "reachable s \<Longrightarrow> reachable (fst (delete_center center_id s))"
| r_assign: "reachable s \<Longrightarrow> reachable (fst (assign_document center_id doc_ref s))"
| r_set_page: "reachable s \<Longrightarrow> reachable (fst (set_page center_id page_in s))"
| r_connect: "reachable s \<Longrightarrow> reachable (ws_connect client_id w s)"
| r_message: "reachable s \<Longrightarrow> reachable (handle_message client_id msg s)"
| r_disconnect: "reachable s \<Longrightarrow> reachable (ws_disconnect client_id s)"
| r_close: "reachable s \<Longrightarrow> reachable (ws_close client_id s)"

section \<open>Vocabulary of the properties\<close>

text \<open>
  \<open>deliver ms c\<close> is the entry \<open>c\<close> after the messages \<open>ms\<close> have arrived on its
  channel; an entry is \<open>live\<close> while its channel is open. \<open>fan g cl\<close> is the registry
  \<open>cl\<close> after every live entry has been sent the messages \<open>g\<close> selects for its
  center binding and every other entry has been dropped.
\<close>

definition deliver :: "message list \<Rightarrow> client \<Rightarrow> client" where
  "deliver ms c = c\<lparr>ws := (ws c)\<lparr>received := received (ws c) @ ms\<rparr>\<rparr>"

definition live :: "client \<Rightarrow> bool" where
  "live c = (\<not> ws_closed (ws c))"

definition fan :: "(ident option \<Rightarrow> message list) \<Rightarrow> (ident \<times> client) list \<Rightarrow> (ident \<times> client) list" where
  "fan g cl = map (\<lambda>(k, c). (k, deliver (g (centerId c)) c)) (filter (\<lambda>(k, c). live c) cl)"

text \<open>
  What the loop of \<^verbatim>\<open>delete_document\<close> sends to an entry bound to \<open>r\<close>: for each
  center that references the document, in order, the removal notice when the entry is
  bound to that center, then the updated center.
\<close>

definition cascade_msgs :: "ident \<Rightarrow> (ident \<times> center) list \<Rightarrow> ident option \<Rightarrow> message list" where
  "cascade_msgs doc_id cs r =
     concat (map (\<lambda>(k, c).
        if references doc_id c
        then (if r = Some (c_id c) then [DOCUMENT_REMOVED] else []) @ [CENTER_UPDATED (cleared c)]
        else []) cs)"

text \<open>The page range the specification names, \<open>[0, pageCount - 1]\<close>.\<close>

definition page_within :: "center \<Rightarrow> document \<Rightarrow> bool" where
  "page_within c doc = (0 \<le> currentPage c \<and> currentPage c \<le> int (length (pages doc)) - 1)"

text \<open>
  The role and center a registry entry is bound to, and what a live entry is sent when it
  registers as a display.
\<close>

definition binding :: "ident \<Rightarrow> state \<Rightarrow> (role option \<times> ident option) option" where
  "binding client_id s = map_option (\<lambda>c. (role c, centerId c)) (map_of (clients s) client_id)"

definition register_reply :: "state \<Rightarrow> ident option \<Rightarrow> message list" where
  "register_reply s center_ref =
     (case center_ref of
        None \<Rightarrow> []
      | Some k \<Rightarrow>
          (case map_of (centers s) k of
             None \<Rightarrow> []
           | Some c \<Rightarrow>
               CENTER_UPDATED (c\<lparr>connected := True\<rparr>) #
               (case assignedDoc c of
                  None \<Rightarrow> []
                | Some a \<Rightarrow>
                    (case map_of (documents s) (a_id a) of
                       None \<Rightarrow> []
                     | Some doc \<Rightarrow> [DOCUMENT_ASSIGNED doc (currentPage c)]))))"

text \<open>
  Two invariants of the stores: every document is filed under its own id, and every
  assignment refers to an id in the document store. The first pair is executable on a
  state, the second pair words the same over the two dictionaries.
\<close>

definition doc_keys_ok :: "state \<Rightarrow> bool" where
  "doc_keys_ok s = list_all (\<lambda>(k, d). d_id d = k) (documents s)"

definition assigned_in_store :: "state \<Rightarrow> bool" where
  "assigned_in_store s =
     list_all (\<lambda>(k, c). case assignedDoc c of
                            None \<Rightarrow> True
                          | Some a \<Rightarrow> a_id a \<in> set (map fst (documents s)))
       (centers s)"

definition keys_ok :: "(ident \<times> document) list \<Rightarrow> bool" where
  "keys_ok ds = (\<forall>(k, d) \<in> set ds. d_id d = k)"

definition refs_ok :: "(ident \<times> center) list \<Rightarrow> (ident \<times> document) list \<Rightarrow> bool" where
  "refs_ok cs ds = (\<forall>(k, c) \<in> set cs. \<forall>a. assignedDoc c = Some a \<longrightarrow> a_id a \<in> fst ` set ds)"

definition store_inv :: "state \<Rightarrow> bool" where
  "store_inv s = (keys_ok (documents s) \<and> refs_ok (centers s) (documents s))"

subsection \<open>Example states\<close>

text \<open>
  What \<^verbatim>\<open>str.lower\<close> does to a string of code points below U+0100: the capital letters
  \<open>A\<close> to \<open>Z\<close> and U+00C0 to U+00DE (the multiplication sign U+00D7 apart) move up by 32,
  everything else is kept. The letters and decimal digits below U+0100: \<open>a\<close> to \<open>z\<close>,
  \<open>A\<close> to \<open>Z\<close>, \<open>0\<close> to \<open>9\<close>, U+00AA, U+00B5, U+00BA, and U+00C0 to U+00FF without the
  multiplication and the division sign. The examples name their centers with code points
  below U+0100; \<open>cafe\<close> is the name \<open>Caf\<close> followed by U+00E9, e with acute accent.
\<close>

definition lower_latin1 :: "ustring \<Rightarrow> ustring" where
  "lower_latin1 =
     map (\<lambda>c. if (0x41 \<le> c \<and> c \<le> 0x5A) \<or> (0xC0 \<le> c \<and> c \<le> 0xDE \<and> c \<noteq> 0xD7)
               then c + 0x20 else c)"

definition latin1_alnum :: "int \<Rightarrow> bool" where
  "latin1_alnum c =
     ((0x61 \<le> c \<and> c \<le> 0x7A) \<or> (0x41 \<le> c \<and> c \<le> 0x5A) \<or> (0x30 \<le> c \<and> c \<le> 0x39)
      \<or> c = 0xAA \<or> c = 0xB5 \<or> c = 0xBA
      \<or> (0xC0 \<le> c \<and> c \<le> 0xFF \<and> c \<noteq> 0xD7 \<and> c \<noteq> 0xF7))"

definition cafe :: ustring where
  "cafe = [0x43, 0x61, 0x66, 0xE9]"

text \<open>
  One center with a three-page document assigned and one without, a display of the first
  center, a display of the same center whose channel has already closed, and a dashboard.
\<close>

definition ex_doc :: document where
  "ex_doc = \<lparr>d_id = ''d1'', d_name = u ''Plan'', originalName = u ''plan.xlsx'', d_type = Excel,
             pages = [\<lparr>title = ''A'', html = ''a''\<rparr>, \<lparr>title = ''B'', html = ''b''\<rparr>,
                      \<lparr>title = ''C'', html = ''c''\<rparr>],
             uploadedAt = ''t0'', filePath = u ''uploads/1_plan.xlsx''\<rparr>"

definition ex_center :: center where
  "ex_center = \<lparr>c_id = ''c1'', c_name = u ''Line A'', slug = u ''line-a'', color = ''#2563eb'',
                assignedDoc = Some \<lparr>a_id = ''d1'', a_name = u ''Plan'', a_type = Excel\<rparr>,
                currentPage = 1, connected = True, createdAt = ''t0''\<rparr>"

definition ex_other :: center where
  "ex_other = \<lparr>c_id = ''c2'', c_name = u ''Line B'', slug = u ''line-b'', color = ''#2563eb'',
               assignedDoc = None, currentPage = 0, connected = False, createdAt = ''t0''\<rparr>"

definition open_socket :: socket where
  "open_socket = \<lparr>ws_closed = False, received = []\<rparr>"

definition closed_socket :: socket where
  "closed_socket = \<lparr>ws_closed = True, received = []\<rparr>"

definition ex_display :: client where
  "ex_display = \<lparr>ws = open_socket, role = Some Display, centerId = Some ''c1''\<rparr>"

definition ex_gone :: client where
  "ex_gone = \<lparr>ws = closed_socket, role = Some Display, centerId = Some ''c1''\<rparr>"

definition ex_dashboard :: client where
  "ex_dashboard = \<lparr>ws = open_socket, role = Some Dashboard, centerId = None\<rparr>"

definition ex_clients :: "(ident \<times> client) list" where
  "ex_clients = [(''k1'', ex_display), (''k2'', ex_gone), (''k3'', ex_dashboard)]"

definition ex_state :: state where
  "ex_state = \<lparr>centers = [(''c1'', ex_center), (''c2'', ex_other)],
               documents = [(''d1'', ex_doc)],
               clients = ex_clients,
               files = {u ''uploads/1_plan.xlsx''}\<rparr>"

text \<open>A parser that raises, and one that finds no pages (a workbook without sheets).\<close>

definition failing_parser :: "string \<Rightarrow> string + page list" where
  "failing_parser bytes = Inl ''File is not a zip file''"

definition no_pages :: "string \<Rightarrow> string + page list" where
  "no_pages bytes = Inr []"

text \<open>
  A center created, a document without pages uploaded and assigned to it; and a channel
  that connects and then registers three times.
\<close>

definition empty_doc_state :: state where
  "empty_doc_state =
     fst (assign_document ''c1'' (Some ''d1'')
       (fst (upload_document lower_latin1 no_pages no_pages 1 ''t1'' ''d1'' (Some (u ''empty.xlsx'', ''x'')) None Saved
         (fst (create_center lower_latin1 ''t0'' ''c1'' (u ''Line A'') None (init {}))))))"

definition rebinding_trace :: "state list" where
  "rebinding_trace =
     (let s1 = ws_connect ''k9'' open_socket ex_state;
          s2 = handle_message ''k9'' (REGISTER_DISPLAY (Some ''c1'')) s1;
          s3 = handle_message ''k9'' (REGISTER_DISPLAY (Some ''c2'')) s2;
          s4 = handle_message ''k9'' REGISTER_DASHBOARD s3
      in [s1, s2, s3, s4])"

text \<open>
  The scenario of the specification: a center \<open>Line A\<close>, a three-page workbook uploaded
  and assigned to it.
\<close>

definition three_pages :: "string \<Rightarrow> string + page list" where
  "three_pages bytes =
     Inr [\<lparr>title = ''Sheet1'', html = ''a''\<rparr>, \<lparr>title = ''Sheet2'', html = ''b''\<rparr>,
          \<lparr>title = ''Sheet3'', html = ''c''\<rparr>]"

definition line_a_state :: state where
  "line_a_state =
     fst (assign_document ''c1'' (Some ''d1'')
       (fst (upload_document lower_latin1 three_pages three_pages 1 ''t1'' ''d1'' (Some (u ''plan.xlsx'', ''x'')) None Saved
         (fst (create_center lower_latin1 ''t0'' ''c1'' (u ''Line A'') None (init {}))))))"

text \<open>
  The same state after \<open>setPage(5)\<close> and with one channel connected, and the values it
  then holds: the document, the assignment, the center on page 2, and the new entry after
  its initial snapshot.
\<close>

definition display_state :: state where
  "display_state = ws_connect ''k1'' open_socket (fst (set_page ''c1'' (Some 5) line_a_state))"

definition line_a_doc :: document where
  "line_a_doc =
     \<lparr>d_id = ''d1'', d_name = u ''plan.xlsx'', originalName = u ''plan.xlsx'', d_type = Excel,
      pages = [\<lparr>title = ''Sheet1'', html = ''a''\<rparr>, \<lparr>title = ''Sheet2'', html = ''b''\<rparr>,
               \<lparr>title = ''Sheet3'', html = ''c''\<rparr>],
      uploadedAt = ''t1'', filePath = u ''uploads/1_plan.xlsx''\<rparr>"

definition line_a_assigned :: assigned_doc where
  "line_a_assigned = \<lparr>a_id = ''d1'', a_name = u ''plan.xlsx'', a_type = Excel\<rparr>"

definition line_a_center :: center where
  "line_a_center =
     \<lparr>c_id = ''c1'', c_name = u ''Line A'', slug = u ''line-a'', color = ''#2563eb'',
      assignedDoc = Some line_a_assigned, currentPage = 2, connected = False, createdAt = ''t0''\<rparr>"

definition line_a_entry :: client where
  "line_a_entry =
     \<lparr>ws = \<lparr>ws_closed = False, received = [INIT [line_a_center] [doc_summary line_a_doc]]\<rparr>,
      role = None, centerId = None\<rparr>"

section \<open>Delivery\<close>

lemma deliver_simps [simp]:
  "centerId (deliver ms c) = centerId c"
  "role (deliver ms c) = role c"
  "live (deliver ms c) = live c"
  "ws_closed (ws (deliver ms c)) = ws_closed (ws c)"
  "received (ws (deliver ms c)) = received (ws c) @ ms"
  "deliver ms (deliver ns c) = deliver (ns @ ms) c"
  "deliver [] c = c"
  by (simp_all add: deliver_def live_def)

lemma send_loop_eq:
  "send_loop sel msg cl =
     (map (\<lambda>(k, c). (k, if sel c \<and> live c then deliver [msg] c else c)) cl,
      map fst (filter (\<lambda>(k, c). sel c \<and> \<not> live c) cl))"
proof (induction cl)
  case Nil
  then show ?case by simp
next
  case (Cons x cl)
  obtain k c where x: "x = (k, c)" by (cases x)
  show ?case
    unfolding x send_loop.simps Cons.IH
    by (simp add: ws_send_def deliver_def live_def)
qed

lemma pop_all_eq: "pop_all dead cl = filter (\<lambda>(k, c). k \<notin> set dead) cl"
proof (induction dead arbitrary: cl)
  case Nil
  then show ?case by simp
next
  case (Cons d dead)
  show ?case
    by (simp add: Cons.IH AList.delete_eq) (rule filter_cong, auto)
qed

lemma fanout_eq:
  assumes "distinct (map fst cl)"
  shows "(case send_loop sel msg cl of (cl', dead) \<Rightarrow> pop_all dead cl') =
           map (\<lambda>(k, c). (k, if sel c then deliver [msg] c else c))
             (filter (\<lambda>(k, c). \<not> (sel c \<and> \<not> live c)) cl)"
proof -
  have key: "\<And>k c. (k, c) \<in> set cl \<Longrightarrow>
      (k \<in> fst ` {x \<in> set cl. case x of (k, c) \<Rightarrow> sel c \<and> \<not> live c}) = (sel c \<and> \<not> live c)"
  proof -
    fix k c assume in_cl: "(k, c) \<in> set cl"
    show "(k \<in> fst ` {x \<in> set cl. case x of (k, c) \<Rightarrow> sel c \<and> \<not> live c}) = (sel c \<and> \<not> live c)"
    proof
      assume "k \<in> fst ` {x \<in> set cl. case x of (k, c) \<Rightarrow> sel c \<and> \<not> live c}"
      then obtain c' where c': "(k, c') \<in> set cl" "sel c' \<and> \<not> live c'" by auto
      with assms in_cl have "c' = c" by (meson eq_key_imp_eq_value)
      with c' show "sel c \<and> \<not> live c" by simp
    next
      assume "sel c \<and> \<not> live c"
      with in_cl show "k \<in> fst ` {x \<in> set cl. case x of (k, c) \<Rightarrow> sel c \<and> \<not> live c}"
        by force
    qed
  qed
  show ?thesis
  proof -
    have f: "filter ((\<lambda>(k, c). k \<notin> set (map fst (filter (\<lambda>(k, c). sel c \<and> \<not> live c) cl))) \<circ>
                (\<lambda>(k, c). (k, if sel c \<and> live c then deliver [msg] c else c))) cl
             = filter (\<lambda>(k, c). \<not> (sel c \<and> \<not> live c)) cl"
      by (rule filter_cong) (use key in \<open>auto simp: comp_def\<close>)
    show ?thesis
      unfolding send_loop_eq pop_all_eq prod.case filter_map f
      by (rule map_cong) auto
  qed
qed


lemma fan_keys: "map fst (fan g cl) = map fst (filter (\<lambda>(k, c). live c) cl)"
  by (simp add: fan_def comp_def case_prod_unfold)

lemma distinct_fan: "distinct (map fst cl) \<Longrightarrow> distinct (map fst (fan g cl))"
  by (simp add: fan_keys distinct_map_filter)

lemma fan_live: "filter (\<lambda>(k, c). live c) (fan g cl) = fan g cl"
  by (auto simp: fan_def filter_map comp_def case_prod_unfold)

lemma fan_fan: "fan h (fan g cl) = fan (\<lambda>r. g r @ h r) cl"
proof -
  have "fan h (fan g cl) = map (\<lambda>(k, c). (k, deliver (h (centerId c)) c)) (fan g cl)"
    unfolding fan_def[of h] fan_live ..
  also have "\<dots> = fan (\<lambda>r. g r @ h r) cl"
    by (simp add: fan_def comp_def case_prod_unfold)
  finally show ?thesis .
qed

lemma broadcast_eq:
  assumes "distinct (map fst cl)"
  shows "broadcast msg cl = fan (\<lambda>r. [msg]) cl"
  unfolding broadcast_def fanout_eq[OF assms] fan_def by simp

lemma notify_center_eq:
  assumes "distinct (map fst cl)"
  shows "notify_center center_id msg cl =
           map (\<lambda>(k, c). (k, if centerId c = Some center_id then deliver [msg] c else c))
             (filter (\<lambda>(k, c). \<not> (centerId c = Some center_id \<and> \<not> live c)) cl)"
  unfolding notify_center_def fanout_eq[OF assms] ..

lemma distinct_notify_center:
  "distinct (map fst cl) \<Longrightarrow> distinct (map fst (notify_center center_id msg cl))"
  by (simp add: notify_center_eq comp_def case_prod_unfold distinct_map_filter)

lemma distinct_broadcast: "distinct (map fst cl) \<Longrightarrow> distinct (map fst (broadcast msg cl))"
  by (simp add: broadcast_eq distinct_fan)

lemma notify_then_broadcast:
  assumes "distinct (map fst cl)"
  shows "broadcast m2 (notify_center center_id m1 cl) =
           fan (\<lambda>r. (if r = Some center_id then [m1] else []) @ [m2]) cl"
proof -
  have "broadcast m2 (notify_center center_id m1 cl) = fan (\<lambda>r. [m2]) (notify_center center_id m1 cl)"
    by (rule broadcast_eq[OF distinct_notify_center[OF assms]])
  also have "\<dots> = fan (\<lambda>r. (if r = Some center_id then [m1] else []) @ [m2]) cl"
    unfolding notify_center_eq[OF assms] fan_def filter_map filter_filter map_map
    apply (rule arg_cong2[where f = map])
     apply (rule ext)
     apply (auto simp: )[1]
    apply (rule filter_cong)
     apply auto
    done
  finally show ?thesis .
qed


lemma cascade_centers:
  "fst (cascade doc_id cs cl) = map (\<lambda>(k, c). (k, if references doc_id c then cleared c else c)) cs"
proof (induction cs arbitrary: cl)
  case Nil
  then show ?case by simp
next
  case (Cons x cs)
  obtain k c where x: "x = (k, c)" by (cases x)
  show ?case
  proof (cases "references doc_id c")
    case True
    let ?cl2 = "broadcast (CENTER_UPDATED (cleared c)) (notify_center (c_id (cleared c)) DOCUMENT_REMOVED cl)"
    obtain cs' cl3 where r: "cascade doc_id cs ?cl2 = (cs', cl3)" by (cases "cascade doc_id cs ?cl2")
    from Cons.IH[of ?cl2] r
    have "cs' = map (\<lambda>(k, c). (k, if references doc_id c then cleared c else c)) cs" by simp
    with True r show ?thesis by (simp add: x Let_def)
  next
    case False
    obtain cs' cl3 where r: "cascade doc_id cs cl = (cs', cl3)" by (cases "cascade doc_id cs cl")
    from Cons.IH[of cl] r
    have "cs' = map (\<lambda>(k, c). (k, if references doc_id c then cleared c else c)) cs" by simp
    with False r show ?thesis by (simp add: x)
  qed
qed

lemma cleared_id [simp]: "c_id (cleared c) = c_id c"
  by (simp add: cleared_def)

lemma cascade_clients:
  assumes "distinct (map fst cl)"
  shows "broadcast m (snd (cascade doc_id cs cl)) = fan (\<lambda>r. cascade_msgs doc_id cs r @ [m]) cl"
  using assms
proof (induction cs arbitrary: cl)
  case Nil
  then show ?case by (simp add: cascade_msgs_def broadcast_eq)
next
  case (Cons x cs)
  obtain k c where x: "x = (k, c)" by (cases x)
  show ?case
  proof (cases "references doc_id c")
    case True
    let ?g = "\<lambda>r. (if r = Some (c_id c) then [DOCUMENT_REMOVED] else []) @ [CENTER_UPDATED (cleared c)]"
    let ?cl2 = "broadcast (CENTER_UPDATED (cleared c)) (notify_center (c_id c) DOCUMENT_REMOVED cl)"
    have cl2: "?cl2 = fan ?g cl"
      by (rule notify_then_broadcast[OF Cons.prems])
    have d2: "distinct (map fst ?cl2)"
      unfolding cl2 by (rule distinct_fan[OF Cons.prems])
    have "broadcast m (snd (cascade doc_id (x # cs) cl)) = broadcast m (snd (cascade doc_id cs ?cl2))"
      using True by (simp add: x Let_def split: prod.splits)
    also have "\<dots> = fan (\<lambda>r. cascade_msgs doc_id cs r @ [m]) ?cl2"
      by (rule Cons.IH[OF d2])
    also have "\<dots> = fan (\<lambda>r. cascade_msgs doc_id (x # cs) r @ [m]) cl"
      unfolding cl2 fan_fan using True by (simp add: cascade_msgs_def x)
    finally show ?thesis .
  next
    case False
    have "broadcast m (snd (cascade doc_id (x # cs) cl)) = broadcast m (snd (cascade doc_id cs cl))"
      using False by (simp add: x split: prod.splits)
    also have "\<dots> = fan (\<lambda>r. cascade_msgs doc_id cs r @ [m]) cl"
      by (rule Cons.IH[OF Cons.prems])
    also have "\<dots> = fan (\<lambda>r. cascade_msgs doc_id (x # cs) r @ [m]) cl"
      using False by (simp add: cascade_msgs_def x)
    finally show ?thesis .
  qed
qed

lemma map_of_fan:
  assumes "distinct (map fst cl)" and "map_of cl k = Some c"
  shows "map_of (fan g cl) k = (if live c then Some (deliver (g (centerId c)) c) else None)"
proof (cases "live c")
  case True
  from assms(2) have in_cl: "(k, c) \<in> set cl" by (rule map_of_SomeD)
  with True have "(k, c) \<in> set (filter (\<lambda>(k, c). live c) cl)" by simp
  then have "(\<lambda>(k, c). (k, deliver (g (centerId c)) c)) (k, c) \<in> set (fan g cl)"
    unfolding fan_def set_map by (rule imageI)
  then have "(k, deliver (g (centerId c)) c) \<in> set (fan g cl)" by simp
  from map_of_is_SomeI[OF distinct_fan[OF assms(1)] this] True show ?thesis by simp
next
  case False
  from assms(2) have in_cl: "(k, c) \<in> set cl" by (rule map_of_SomeD)
  have "k \<notin> set (map fst (filter (\<lambda>(k, c). live c) cl))"
  proof
    assume "k \<in> set (map fst (filter (\<lambda>(k, c). live c) cl))"
    then obtain c' where c': "(k, c') \<in> set cl" "live c'" by auto
    from eq_key_imp_eq_value[OF assms(1) c'(1) in_cl] have "c' = c" .
    with c'(2) False show False by simp
  qed
  then have "k \<notin> set (map fst (fan g cl))" unfolding fan_keys .
  then have "k \<notin> fst ` set (fan g cl)" unfolding set_map .
  then have "map_of (fan g cl) k = None" by (rule iffD2[OF map_of_eq_None_iff])
  with False show ?thesis by simp
qed

lemma delete_document_effect:
  assumes doc: "map_of (documents s) doc_id = Some doc"
    and dist: "distinct (map fst (clients s))"
  shows "snd (delete_document doc_id s) = Success"
    and "centers (fst (delete_document doc_id s)) =
           map (\<lambda>(k, c). (k, if references doc_id c then cleared c else c)) (centers s)"
    and "documents (fst (delete_document doc_id s)) = AList.delete doc_id (documents s)"
    and "clients (fst (delete_document doc_id s)) =
           fan (\<lambda>r. cascade_msgs doc_id (centers s) r @ [DOCUMENT_DELETED doc_id]) (clients s)"
    and "files (fst (delete_document doc_id s)) = files s - {filePath doc}"
proof -
  obtain cs' cl' where cas: "cascade doc_id (centers s) (clients s) = (cs', cl')"
    by (cases "cascade doc_id (centers s) (clients s)")
  have cs': "cs' = map (\<lambda>(k, c). (k, if references doc_id c then cleared c else c)) (centers s)"
    using cascade_centers[of doc_id "centers s" "clients s"] cas by simp
  have cl': "broadcast (DOCUMENT_DELETED doc_id) cl' =
      fan (\<lambda>r. cascade_msgs doc_id (centers s) r @ [DOCUMENT_DELETED doc_id]) (clients s)"
    using cascade_clients[OF dist, of "DOCUMENT_DELETED doc_id" doc_id "centers s"] cas by simp
  show "snd (delete_document doc_id s) = Success"
    by (simp add: delete_document_def doc cas Let_def)
  show "centers (fst (delete_document doc_id s)) =
           map (\<lambda>(k, c). (k, if references doc_id c then cleared c else c)) (centers s)"
    by (simp add: delete_document_def doc cas Let_def cs')
  show "documents (fst (delete_document doc_id s)) = AList.delete doc_id (documents s)"
    by (simp add: delete_document_def doc cas Let_def)
  show "clients (fst (delete_document doc_id s)) =
           fan (\<lambda>r. cascade_msgs doc_id (centers s) r @ [DOCUMENT_DELETED doc_id]) (clients s)"
    by (simp add: delete_document_def doc cas Let_def cl')
  show "files (fst (delete_document doc_id s)) = files s - {filePath doc}"
    by (simp add: delete_document_def doc cas Let_def)
qed

lemma cascade_msgs_removed:
  assumes "(k, c) \<in> set cs" and "references doc_id c"
  shows "DOCUMENT_REMOVED \<in> set (cascade_msgs doc_id cs (Some (c_id c)))"
  using assms by (force simp: cascade_msgs_def)

text \<open>
  C4. A broadcast reaches every entry whose channel is open, whatever the other sends
  did, and drops exactly the entries whose send failed before it returns; the targeted
  \<^verbatim>\<open>notify_center\<close> does the same among the entries bound to the center and leaves
  the others alone. (The keys of the registry are distinct, as those of a dictionary
  are.)
\<close>

theorem broadcast_resilient:
  assumes "distinct (map fst cl)"
  shows "broadcast msg cl =
           map (\<lambda>(k, c). (k, deliver [msg] c)) (filter (\<lambda>(k, c). live c) cl)
       \<and> notify_center center_id msg cl =
           map (\<lambda>(k, c). (k, if centerId c = Some center_id then deliver [msg] c else c))
             (filter (\<lambda>(k, c). \<not> (centerId c = Some center_id \<and> \<not> live c)) cl)
       \<and> (\<forall>k c. map_of cl k = Some c \<longrightarrow>
             map_of (broadcast msg cl) k = (if live c then Some (deliver [msg] c) else None))"
proof (intro conjI allI impI)
  show "broadcast msg cl = map (\<lambda>(k, c). (k, deliver [msg] c)) (filter (\<lambda>(k, c). live c) cl)"
    unfolding broadcast_eq[OF assms] fan_def ..
  show "notify_center center_id msg cl =
           map (\<lambda>(k, c). (k, if centerId c = Some center_id then deliver [msg] c else c))
             (filter (\<lambda>(k, c). \<not> (centerId c = Some center_id \<and> \<not> live c)) cl)"
    by (rule notify_center_eq[OF assms])
  fix k c assume "map_of cl k = Some c"
  then show "map_of (broadcast msg cl) k = (if live c then Some (deliver [msg] c) else None)"
    unfolding broadcast_eq[OF assms] by (rule map_of_fan[OF assms])
qed

theorem broadcast_resilient_witness:
  "distinct (map fst ex_clients)
   \<and> broadcast DOCUMENT_REMOVED ex_clients =
       [(''k1'', ex_display\<lparr>ws := \<lparr>ws_closed = False, received = [DOCUMENT_REMOVED]\<rparr>\<rparr>),
        (''k3'', ex_dashboard\<lparr>ws := \<lparr>ws_closed = False, received = [DOCUMENT_REMOVED]\<rparr>\<rparr>)]
   \<and> notify_center ''c1'' DOCUMENT_REMOVED ex_clients =
       [(''k1'', ex_display\<lparr>ws := \<lparr>ws_closed = False, received = [DOCUMENT_REMOVED]\<rparr>\<rparr>),
        (''k3'', ex_dashboard)]
   \<and> map_of (broadcast DOCUMENT_REMOVED ex_clients) ''k2'' = None"
proof -
  have d: "distinct (map fst ex_clients)" by (simp add: ex_clients_def)
  have k2: "map_of ex_clients ''k2'' = Some ex_gone" by (simp add: ex_clients_def)
  note t = broadcast_resilient[OF d, of DOCUMENT_REMOVED "''c1''"]
  from t have b: "broadcast DOCUMENT_REMOVED ex_clients =
       map (\<lambda>(k, c). (k, deliver [DOCUMENT_REMOVED] c)) (filter (\<lambda>(k, c). live c) ex_clients)"
    by (rule conjunct1)
  from t have n: "notify_center ''c1'' DOCUMENT_REMOVED ex_clients =
           map (\<lambda>(k, c). (k, if centerId c = Some ''c1'' then deliver [DOCUMENT_REMOVED] c else c))
             (filter (\<lambda>(k, c). \<not> (centerId c = Some ''c1'' \<and> \<not> live c)) ex_clients)"
    by (rule conjunct1[OF conjunct2])
  from t k2 have p: "map_of (broadcast DOCUMENT_REMOVED ex_clients) ''k2'' =
      (if live ex_gone then Some (deliver [DOCUMENT_REMOVED] ex_gone) else None)"
    by blast
  show ?thesis
    unfolding b n p
    by (simp add: ex_clients_def ex_display_def ex_gone_def ex_dashboard_def open_socket_def
        closed_socket_def deliver_def live_def)
qed

text \<open>
  C3. Deleting a stored document succeeds, clears the assignment and resets the page of
  every center that referenced it and of no other, removes the document from the store,
  and every live entry bound to an affected center receives \<open>DOCUMENT_REMOVED\<close>.
\<close>

theorem delete_document_cascade:
  assumes "map_of (documents s) doc_id = Some doc" and "distinct (map fst (clients s))"
  shows "snd (delete_document doc_id s) = Success
     \<and> centers (fst (delete_document doc_id s)) =
         map (\<lambda>(k, c). (k, if references doc_id c then c\<lparr>assignedDoc := None, currentPage := 0\<rparr> else c))
           (centers s)
     \<and> map_of (documents (fst (delete_document doc_id s))) = (map_of (documents s))(doc_id := None)
     \<and> clients (fst (delete_document doc_id s)) =
         fan (\<lambda>r. cascade_msgs doc_id (centers s) r @ [DOCUMENT_DELETED doc_id]) (clients s)
     \<and> (\<forall>k c i cl. (k, c) \<in> set (centers s) \<and> references doc_id c
            \<and> map_of (clients s) i = Some cl \<and> live cl \<and> centerId cl = Some (c_id c)
          \<longrightarrow> (\<exists>ms. map_of (clients (fst (delete_document doc_id s))) i = Some (deliver ms cl)
                 \<and> DOCUMENT_REMOVED \<in> set ms))"
proof (intro conjI allI impI)
  note e = delete_document_effect[OF assms]
  show "snd (delete_document doc_id s) = Success" by (rule e(1))
  show "centers (fst (delete_document doc_id s)) =
         map (\<lambda>(k, c). (k, if references doc_id c then c\<lparr>assignedDoc := None, currentPage := 0\<rparr> else c))
           (centers s)"
    unfolding e(2) cleared_def ..
  show "map_of (documents (fst (delete_document doc_id s))) = (map_of (documents s))(doc_id := None)"
    unfolding e(3) by (rule delete_conv')
  show "clients (fst (delete_document doc_id s)) =
         fan (\<lambda>r. cascade_msgs doc_id (centers s) r @ [DOCUMENT_DELETED doc_id]) (clients s)"
    by (rule e(4))
  fix k c i cl
  assume h: "(k, c) \<in> set (centers s) \<and> references doc_id c
            \<and> map_of (clients s) i = Some cl \<and> live cl \<and> centerId cl = Some (c_id c)"
  let ?ms = "cascade_msgs doc_id (centers s) (centerId cl) @ [DOCUMENT_DELETED doc_id]"
  from h have "map_of (clients (fst (delete_document doc_id s))) i = Some (deliver ?ms cl)"
    unfolding e(4) by (simp add: map_of_fan[OF assms(2)])
  moreover from h have "DOCUMENT_REMOVED \<in> set ?ms"
    using cascade_msgs_removed[of k c "centers s" doc_id] by simp
  ultimately show "\<exists>ms. map_of (clients (fst (delete_document doc_id s))) i = Some (deliver ms cl)
                 \<and> DOCUMENT_REMOVED \<in> set ms" by blast
qed

theorem delete_document_cascade_witness:
  "map_of (documents ex_state) ''d1'' = Some ex_doc
   \<and> distinct (map fst (clients ex_state))
   \<and> snd (delete_document ''d1'' ex_state) = Success
   \<and> centers (fst (delete_document ''d1'' ex_state)) =
       [(''c1'', ex_center\<lparr>assignedDoc := None, currentPage := 0\<rparr>), (''c2'', ex_other)]
   \<and> map_of (documents (fst (delete_document ''d1'' ex_state))) ''d1'' = None
   \<and> clients (fst (delete_document ''d1'' ex_state)) =
       [(''k1'', deliver [DOCUMENT_REMOVED,
                          CENTER_UPDATED (ex_center\<lparr>assignedDoc := None, currentPage := 0\<rparr>),
                          DOCUMENT_DELETED ''d1''] ex_display),
        (''k3'', deliver [CENTER_UPDATED (ex_center\<lparr>assignedDoc := None, currentPage := 0\<rparr>),
                          DOCUMENT_DELETED ''d1''] ex_dashboard)]"
proof -
  have a: "map_of (documents ex_state) ''d1'' = Some ex_doc" by (simp add: ex_state_def)
  have d: "distinct (map fst (clients ex_state))" by (simp add: ex_state_def ex_clients_def)
  note t = delete_document_cascade[OF a d]
  have r: "references ''d1'' ex_center" "\<not> references ''d1'' ex_other"
    by (simp_all add: references_def ex_center_def ex_other_def)
  have c: "centers ex_state = [(''c1'', ex_center), (''c2'', ex_other)]"
    and cl: "clients ex_state = ex_clients" by (simp_all add: ex_state_def)
  have lv: "live ex_display" "\<not> live ex_gone" "live ex_dashboard"
    by (simp_all add: live_def ex_display_def ex_gone_def ex_dashboard_def open_socket_def closed_socket_def)
  have ci: "centerId ex_display = Some ''c1''" "centerId ex_dashboard = None" "c_id ex_center = ''c1''"
    by (simp_all add: ex_display_def ex_dashboard_def ex_center_def)
  from t have t1: "snd (delete_document ''d1'' ex_state) = Success" by blast
  from t have t2: "centers (fst (delete_document ''d1'' ex_state)) =
         map (\<lambda>(k, c). (k, if references ''d1'' c then c\<lparr>assignedDoc := None, currentPage := 0\<rparr> else c))
           (centers ex_state)" by blast
  from t have t3: "map_of (documents (fst (delete_document ''d1'' ex_state))) = (map_of (documents ex_state))(''d1'' := None)"
    by blast
  from t have t4: "clients (fst (delete_document ''d1'' ex_state)) =
         fan (\<lambda>r. cascade_msgs ''d1'' (centers ex_state) r @ [DOCUMENT_DELETED ''d1'']) (clients ex_state)"
    by blast
  show ?thesis
    unfolding t2 t3 t4
    using a d t1 by (simp add: c cl r ex_clients_def fan_def lv ci cascade_msgs_def cleared_def)
qed

section \<open>Centers\<close>

text \<open>
  C9. Updating a known center succeeds and changes its name and its color only where a
  value is supplied; its slug, id, assignment, page, connectivity flag and creation time
  stay as they were, and so do the other centers and the documents.
\<close>

theorem update_center_frame:
  assumes "map_of (centers s) center_id = Some c"
  shows "\<exists>c'. snd (update_center center_id name_in color_in s) = SuccessCenter c'
      \<and> map_of (centers (fst (update_center center_id name_in color_in s))) center_id = Some c'
      \<and> c_name c' = (case name_in of None \<Rightarrow> c_name c | Some n \<Rightarrow> n)
      \<and> color c' = (case color_in of None \<Rightarrow> color c | Some x \<Rightarrow> x)
      \<and> slug c' = slug c \<and> c_id c' = c_id c \<and> assignedDoc c' = assignedDoc c
      \<and> currentPage c' = currentPage c \<and> connected c' = connected c
      \<and> createdAt c' = createdAt c
      \<and> (\<forall>k. k \<noteq> center_id \<longrightarrow>
            map_of (centers (fst (update_center center_id name_in color_in s))) k
              = map_of (centers s) k)
      \<and> map fst (centers (fst (update_center center_id name_in color_in s))) = map fst (centers s)
      \<and> documents (fst (update_center center_id name_in color_in s)) = documents s"
proof -
  let ?c1 = "case name_in of None \<Rightarrow> c | Some n \<Rightarrow> c\<lparr>c_name := n\<rparr>"
  let ?c2 = "case color_in of None \<Rightarrow> ?c1 | Some x \<Rightarrow> ?c1\<lparr>color := x\<rparr>"
  have k: "center_id \<in> fst ` set (centers s)"
    using assms by (metis map_of_eq_None_iff option.distinct(1))
  have r: "update_center center_id name_in color_in s =
      (s\<lparr>centers := AList.update center_id ?c2 (centers s),
         clients := broadcast (CENTER_UPDATED ?c2) (clients s)\<rparr>, SuccessCenter ?c2)"
    by (simp add: update_center_def assms Let_def)
  show ?thesis
    unfolding r
    apply (rule exI[of _ ?c2])
    using k apply (simp add: update_conv' update_keys split: option.splits)
    done
qed

theorem update_center_frame_witness:
  "map_of (centers ex_state) ''c1'' = Some ex_center
   \<and> (\<exists>c'. snd (update_center ''c1'' (Some (u ''Line Z'')) None ex_state) = SuccessCenter c'
         \<and> map_of (centers (fst (update_center ''c1'' (Some (u ''Line Z'')) None ex_state))) ''c1'' = Some c'
         \<and> c_name c' = u ''Line Z'' \<and> color c' = ''#2563eb'' \<and> slug c' = u ''line-a''
         \<and> currentPage c' = 1)
   \<and> map_of (centers (fst (update_center ''c1'' (Some (u ''Line Z'')) None ex_state))) ''c2'' = Some ex_other"
proof -
  have a: "map_of (centers ex_state) ''c1'' = Some ex_center" by (simp add: ex_state_def)
  have b: "map_of (centers ex_state) ''c2'' = Some ex_other" by (simp add: ex_state_def)
  from update_center_frame[OF a, of "Some (u ''Line Z'')" None]
  obtain c' where c': "snd (update_center ''c1'' (Some (u ''Line Z'')) None ex_state) = SuccessCenter c'"
      "map_of (centers (fst (update_center ''c1'' (Some (u ''Line Z'')) None ex_state))) ''c1'' = Some c'"
      "c_name c' = u ''Line Z''" "color c' = color ex_center" "slug c' = slug ex_center"
      "currentPage c' = currentPage ex_center"
      "\<forall>k. k \<noteq> ''c1'' \<longrightarrow>
            map_of (centers (fst (update_center ''c1'' (Some (u ''Line Z'')) None ex_state))) k
              = map_of (centers ex_state) k"
    by auto
  from c'(7) b have o: "map_of (centers (fst (update_center ''c1'' (Some (u ''Line Z'')) None ex_state))) ''c2'' = Some ex_other"
    by simp
  from c'(1-6) have "\<exists>c'. snd (update_center ''c1'' (Some (u ''Line Z'')) None ex_state) = SuccessCenter c'
         \<and> map_of (centers (fst (update_center ''c1'' (Some (u ''Line Z'')) None ex_state))) ''c1'' = Some c'
         \<and> c_name c' = u ''Line Z'' \<and> color c' = ''#2563eb'' \<and> slug c' = u ''line-a''
         \<and> currentPage c' = 1"
    by (intro exI[of _ c']) (simp add: ex_center_def)
  with a o show ?thesis by blast
qed

text \<open>
  C5. For a known center, \<^verbatim>\<open>assign_document\<close> clears the assignment when no document
  id is given (the key is absent, null or the empty string) and sets it to the stored
  document's id, name and type when a known id is given; both reset the page to 0. An
  unknown center and an unknown document id are answered with 404 and the state is left
  as it was.
\<close>

theorem assign_document_spec:
  "(map_of (centers s) center_id = None \<longrightarrow>
       assign_document center_id doc_ref s = (s, Failure 404 ''Center not found''))
   \<and> (\<forall>c. map_of (centers s) center_id = Some c \<longrightarrow>
        ((doc_ref = None \<or> doc_ref = Some []) \<longrightarrow>
            snd (assign_document center_id doc_ref s)
              = SuccessCenter (c\<lparr>assignedDoc := None, currentPage := 0\<rparr>)
          \<and> map_of (centers (fst (assign_document center_id doc_ref s))) center_id
              = Some (c\<lparr>assignedDoc := None, currentPage := 0\<rparr>))
      \<and> (\<forall>d doc. doc_ref = Some d \<and> d \<noteq> [] \<and> map_of (documents s) d = Some doc \<longrightarrow>
            snd (assign_document center_id doc_ref s)
              = SuccessCenter (c\<lparr>assignedDoc :=
                    Some \<lparr>a_id = d_id doc, a_name = d_name doc, a_type = d_type doc\<rparr>,
                  currentPage := 0\<rparr>)
          \<and> map_of (centers (fst (assign_document center_id doc_ref s))) center_id
              = Some (c\<lparr>assignedDoc :=
                    Some \<lparr>a_id = d_id doc, a_name = d_name doc, a_type = d_type doc\<rparr>,
                  currentPage := 0\<rparr>))
      \<and> (\<forall>d. doc_ref = Some d \<and> d \<noteq> [] \<and> map_of (documents s) d = None \<longrightarrow>
            assign_document center_id doc_ref s = (s, Failure 404 ''Document not found''))
      \<and> documents (fst (assign_document center_id doc_ref s)) = documents s
      \<and> (\<forall>k. k \<noteq> center_id \<longrightarrow>
            map_of (centers (fst (assign_document center_id doc_ref s))) k = map_of (centers s) k))"
  by (auto simp: assign_document_def given_id_def Let_def update_conv' split: option.splits)

theorem assign_document_spec_witness:
  "map_of (centers ex_state) ''c2'' = Some ex_other
   \<and> map_of (documents ex_state) ''d1'' = Some ex_doc
   \<and> map_of (documents ex_state) ''d9'' = None
   \<and> map_of (centers ex_state) ''c9'' = None
   \<and> snd (assign_document ''c2'' (Some ''d1'') ex_state)
       = SuccessCenter (ex_other\<lparr>assignedDoc := Some \<lparr>a_id = ''d1'', a_name = u ''Plan'', a_type = Excel\<rparr>,
                                  currentPage := 0\<rparr>)
   \<and> snd (assign_document ''c1'' None ex_state)
       = SuccessCenter (ex_center\<lparr>assignedDoc := None, currentPage := 0\<rparr>)
   \<and> assign_document ''c2'' (Some ''d9'') ex_state = (ex_state, Failure 404 ''Document not found'')
   \<and> assign_document ''c9'' (Some ''d1'') ex_state = (ex_state, Failure 404 ''Center not found'')"
proof -
  have a: "map_of (centers ex_state) ''c2'' = Some ex_other"
    and a1: "map_of (centers ex_state) ''c1'' = Some ex_center"
    and b: "map_of (documents ex_state) ''d1'' = Some ex_doc"
    and c: "map_of (documents ex_state) ''d9'' = None"
    and d: "map_of (centers ex_state) ''c9'' = None"
    by (simp_all add: ex_state_def)
  from assign_document_spec[of ex_state "''c2''" "Some ''d1''"] a b
  have r1: "snd (assign_document ''c2'' (Some ''d1'') ex_state)
       = SuccessCenter (ex_other\<lparr>assignedDoc := Some \<lparr>a_id = d_id ex_doc, a_name = d_name ex_doc, a_type = d_type ex_doc\<rparr>,
                                  currentPage := 0\<rparr>)"
    by simp
  from assign_document_spec[of ex_state "''c1''" None] a1
  have r2: "snd (assign_document ''c1'' None ex_state)
       = SuccessCenter (ex_center\<lparr>assignedDoc := None, currentPage := 0\<rparr>)"
    by simp
  from assign_document_spec[of ex_state "''c2''" "Some ''d9''"] a c
  have r3: "assign_document ''c2'' (Some ''d9'') ex_state = (ex_state, Failure 404 ''Document not found'')"
    by simp
  from assign_document_spec[of ex_state "''c9''" "Some ''d1''"] d
  have r4: "assign_document ''c9'' (Some ''d1'') ex_state = (ex_state, Failure 404 ''Center not found'')"
    by simp
  from r1 have r1': "snd (assign_document ''c2'' (Some ''d1'') ex_state)
       = SuccessCenter (ex_other\<lparr>assignedDoc := Some \<lparr>a_id = ''d1'', a_name = u ''Plan'', a_type = Excel\<rparr>,
                                  currentPage := 0\<rparr>)"
    by (simp add: ex_doc_def)
  from a b c d r1' r2 r3 r4 show ?thesis by simp
qed

section \<open>Pages\<close>

lemma in_set_updateD: "x \<in> set (AList.update k v al) \<Longrightarrow> x = (k, v) \<or> x \<in> set al"
  by (induction al) (auto split: if_splits)

lemma set_page_centers:
  "centers (fst (set_page center_id page_in s)) = centers s
   \<or> (\<exists>c a doc. map_of (centers s) center_id = Some c \<and> assignedDoc c = Some a
         \<and> map_of (documents s) (a_id a) = Some doc
         \<and> centers (fst (set_page center_id page_in s)) =
             AList.update center_id
               (c\<lparr>currentPage := max 0 (min (case page_in of None \<Rightarrow> 0 | Some p \<Rightarrow> p)
                                          (int (length (pages doc)) - 1))\<rparr>) (centers s))"
  by (auto simp: set_page_def Let_def split: option.splits)

lemma set_page_documents: "documents (fst (set_page center_id page_in s)) = documents s"
  by (auto simp: set_page_def Let_def split: option.splits)

text \<open>
  Where the request body can be decoded and the assigned document has at least one page,
  \<^verbatim>\<open>set_page\<close> succeeds and stores \<open>max 0 (min requested (pageCount - 1))\<close>, which lies
  in \<open>[0, pageCount - 1]\<close>.
\<close>

lemma set_page_stores_clamp:
  assumes "map_of (centers s) center_id = Some c" and "assignedDoc c = Some a"
    and "map_of (documents s) (a_id a) = Some doc" and "decodable page_in"
  shows "snd (set_page center_id page_in s)
           = SuccessPage (max 0 (min (case page_in of None \<Rightarrow> 0 | Some p \<Rightarrow> p)
                                     (int (length (pages doc)) - 1)))"
    and "map_of (centers (fst (set_page center_id page_in s))) center_id
           = Some (c\<lparr>currentPage := max 0 (min (case page_in of None \<Rightarrow> 0 | Some p \<Rightarrow> p)
                                                (int (length (pages doc)) - 1))\<rparr>)"
    and "pages doc \<noteq> [] \<Longrightarrow>
           page_within (c\<lparr>currentPage := max 0 (min (case page_in of None \<Rightarrow> 0 | Some p \<Rightarrow> p)
                                                  (int (length (pages doc)) - 1))\<rparr>) doc"
proof -
  show "snd (set_page center_id page_in s)
           = SuccessPage (max 0 (min (case page_in of None \<Rightarrow> 0 | Some p \<Rightarrow> p)
                                     (int (length (pages doc)) - 1)))"
    using assms by (simp add: set_page_def Let_def)
  show "map_of (centers (fst (set_page center_id page_in s))) center_id
           = Some (c\<lparr>currentPage := max 0 (min (case page_in of None \<Rightarrow> 0 | Some p \<Rightarrow> p)
                                                (int (length (pages doc)) - 1))\<rparr>)"
    using assms by (simp add: set_page_def Let_def update_conv')
  assume "pages doc \<noteq> []"
  then have "0 < length (pages doc)" by simp
  then show "page_within (c\<lparr>currentPage := max 0 (min (case page_in of None \<Rightarrow> 0 | Some p \<Rightarrow> p)
                                                  (int (length (pages doc)) - 1))\<rparr>) doc"
    by (simp add: page_within_def)
qed

text \<open>
  A page written with more than 4300 digits is refused with status 400, and the state is
  left as it was.
\<close>

lemma str_nat_length: "10 ^ k \<le> n \<Longrightarrow> k < length (str_nat n)"
proof (induction k arbitrary: n)
  case 0
  from str_nat_nonempty[of n] show ?case by simp
next
  case (Suc k)
  from Suc.prems have g: "10 \<le> n" and d: "10 ^ k \<le> n div 10"
  proof -
    from Suc.prems have m: "10 * 10 ^ k \<le> n" by simp
    have "(1::nat) \<le> 10 ^ k" by simp
    then have "(10::nat) \<le> 10 * 10 ^ k" by linarith
    then show "10 \<le> n" using m by (rule order_trans)
    note m
    then show "10 ^ k \<le> n div 10" by (simp add: less_eq_div_iff_mult_less_eq mult.commute)
  qed
  from g have "str_nat n = str_nat (n div 10) @ [char_of (48 + n mod 10)]"
    by (subst str_nat.simps) simp
  with Suc.IH[OF d] show ?case by simp
qed

lemma set_page_long_literal:
  assumes "map_of (centers s) center_id = Some c" and "assignedDoc c = Some a"
    and "map_of (documents s) (a_id a) = Some doc"
    and "10 ^ INT_MAX_STR_DIGITS \<le> \<bar>p\<bar>"
  shows "set_page center_id (Some p) s = (s, Failure 400 ''Bad Request'')"
proof -
  from assms(4) have "10 ^ INT_MAX_STR_DIGITS \<le> nat \<bar>p\<bar>"
    by (simp add: le_nat_iff)
  then have "INT_MAX_STR_DIGITS < int_digits p"
    unfolding int_digits_def by (rule str_nat_length)
  then have "\<not> decodable (Some p)" by (simp add: decodable_def)
  with assms(1-3) show ?thesis by (simp add: set_page_def)
qed

text \<open>
  C1 fails for a document without pages. \<^verbatim>\<open>parse_excel\<close> returns one page per sheet
  and, unlike \<^verbatim>\<open>parse_word\<close>, does not pad an empty result, so a workbook without sheets
  is stored with an empty page list. For a center it is assigned to, \<^verbatim>\<open>set_page\<close>
  succeeds and stores page 0 of 0 pages, which is outside \<open>[0, pageCount - 1]\<close>.
\<close>

theorem set_page_empty_document:
  "reachable empty_doc_state
   \<and> map_of (centers empty_doc_state) ''c1'' =
       Some \<lparr>c_id = ''c1'', c_name = u ''Line A'', slug = u ''line-a'', color = ''#2563eb'',
             assignedDoc = Some \<lparr>a_id = ''d1'', a_name = u ''empty.xlsx'', a_type = Excel\<rparr>,
             currentPage = 0, connected = False, createdAt = ''t0''\<rparr>
   \<and> map_of (documents empty_doc_state) ''d1'' =
       Some \<lparr>d_id = ''d1'', d_name = u ''empty.xlsx'', originalName = u ''empty.xlsx'',
             d_type = Excel, pages = [], uploadedAt = ''t1'', filePath = u ''uploads/1_empty.xlsx''\<rparr>
   \<and> snd (set_page ''c1'' (Some 5) empty_doc_state) = SuccessPage 0
   \<and> map_of (centers (fst (set_page ''c1'' (Some 5) empty_doc_state))) ''c1'' =
       Some \<lparr>c_id = ''c1'', c_name = u ''Line A'', slug = u ''line-a'', color = ''#2563eb'',
             assignedDoc = Some \<lparr>a_id = ''d1'', a_name = u ''empty.xlsx'', a_type = Excel\<rparr>,
             currentPage = 0, connected = False, createdAt = ''t0''\<rparr>
   \<and> \<not> page_within
         \<lparr>c_id = ''c1'', c_name = u ''Line A'', slug = u ''line-a'', color = ''#2563eb'',
           assignedDoc = Some \<lparr>a_id = ''d1'', a_name = u ''empty.xlsx'', a_type = Excel\<rparr>,
           currentPage = 0, connected = False, createdAt = ''t0''\<rparr>
         \<lparr>d_id = ''d1'', d_name = u ''empty.xlsx'', originalName = u ''empty.xlsx'',
           d_type = Excel, pages = [], uploadedAt = ''t1'', filePath = u ''uploads/1_empty.xlsx''\<rparr>"
proof (intro conjI)
  show "reachable empty_doc_state"
    unfolding empty_doc_state_def by (intro reachable.intros)
qed code_simp+

section \<open>Uploads\<close>

text \<open>
  When \<^verbatim>\<open>file.save\<close> raises, no parser is run: the request is answered with status 500
  and no document is added. Nothing is on disk when the file could not be opened; what was
  written before the raise stays there.
\<close>

lemma upload_document_save_raises:
  assumes "lower_fn (splitext_ext filename) \<in> set allowed_ext" and "save \<noteq> Saved"
  shows "snd (upload_document lower_fn parse_excel parse_word stamp now new_id
                (Some (filename, bytes)) form_name save s) = Failure 500 ''Internal Server Error''"
    and "documents (fst (upload_document lower_fn parse_excel parse_word stamp now new_id
                (Some (filename, bytes)) form_name save s)) = documents s"
    and "files (fst (upload_document lower_fn parse_excel parse_word stamp now new_id
                (Some (filename, bytes)) form_name save s))
           = (if save = Refused then files s else insert (upload_path stamp filename) (files s))"
  using assms by (cases save; simp add: upload_document_def Let_def)+

text \<open>
  C8. An upload whose extension (lower-cased) is none of the four accepted ones is
  rejected and nothing is written. When the extension is accepted, the file has been saved
  and the parser raises, the saved file is removed again, no document is added, and the
  response carries the parser's message.
\<close>

theorem upload_document_failures:
  "(lower_fn (splitext_ext filename) \<notin> set allowed_ext \<longrightarrow>
      upload_document lower_fn parse_excel parse_word stamp now new_id (Some (filename, bytes)) form_name save s
        = (s, Failure 400 ''Only Excel and Word files allowed''))
   \<and> (lower_fn (splitext_ext filename) \<in> set allowed_ext
        \<and> (if lower_fn (splitext_ext filename) \<in> set [u ''.xlsx'', u ''.xls'']
            then parse_excel bytes else parse_word bytes) = Inl e \<longrightarrow>
      upload_document lower_fn parse_excel parse_word stamp now new_id (Some (filename, bytes)) form_name Saved s
        = (s\<lparr>files := files s - {upload_path stamp filename}\<rparr>,
           Failure 500 (''Failed to parse file: '' @ e))
      \<and> upload_path stamp filename
          \<notin> files (fst (upload_document lower_fn parse_excel parse_word stamp now new_id
                            (Some (filename, bytes)) form_name Saved s))
      \<and> documents (fst (upload_document lower_fn parse_excel parse_word stamp now new_id
                            (Some (filename, bytes)) form_name Saved s)) = documents s)"
proof (intro conjI impI)
  assume "lower_fn (splitext_ext filename) \<notin> set allowed_ext"
  then show "upload_document lower_fn parse_excel parse_word stamp now new_id (Some (filename, bytes)) form_name save s
        = (s, Failure 400 ''Only Excel and Word files allowed'')"
    by (simp add: upload_document_def Let_def)
next
  assume h: "lower_fn (splitext_ext filename) \<in> set allowed_ext
        \<and> (if lower_fn (splitext_ext filename) \<in> set [u ''.xlsx'', u ''.xls'']
            then parse_excel bytes else parse_word bytes) = Inl e"
  have ins: "insert (upload_path stamp filename) (files s) - {upload_path stamp filename}
      = files s - {upload_path stamp filename}" by auto
  from h show r: "upload_document lower_fn parse_excel parse_word stamp now new_id (Some (filename, bytes)) form_name Saved s
        = (s\<lparr>files := files s - {upload_path stamp filename}\<rparr>,
           Failure 500 (''Failed to parse file: '' @ e))"
    by (auto simp: upload_document_def Let_def ins split: if_splits)
  show "upload_path stamp filename
          \<notin> files (fst (upload_document lower_fn parse_excel parse_word stamp now new_id
                            (Some (filename, bytes)) form_name Saved s))"
    unfolding r by simp
  show "documents (fst (upload_document lower_fn parse_excel parse_word stamp now new_id
                            (Some (filename, bytes)) form_name Saved s)) = documents s"
    unfolding r by simp
qed

theorem upload_document_failures_witness:
  "lower_latin1 (splitext_ext (u ''notes.txt'')) \<notin> set allowed_ext
   \<and> upload_document lower_latin1 failing_parser failing_parser 7 ''t1'' ''d2'' (Some (u ''notes.txt'', ''x'')) None
         Saved ex_state
       = (ex_state, Failure 400 ''Only Excel and Word files allowed'')
   \<and> lower_latin1 (splitext_ext (u ''plan.XLSX'')) \<in> set allowed_ext
   \<and> failing_parser ''x'' = Inl ''File is not a zip file''
   \<and> snd (upload_document lower_latin1 failing_parser failing_parser 7 ''t1'' ''d2'' (Some (u ''plan.XLSX'', ''x'')) None
            Saved ex_state)
       = Failure 500 ''Failed to parse file: File is not a zip file''
   \<and> u ''uploads/7_plan.XLSX''
        \<notin> files (fst (upload_document lower_latin1 failing_parser failing_parser 7 ''t1'' ''d2''
                        (Some (u ''plan.XLSX'', ''x'')) None Saved ex_state))
   \<and> documents (fst (upload_document lower_latin1 failing_parser failing_parser 7 ''t1'' ''d2''
                        (Some (u ''plan.XLSX'', ''x'')) None Saved ex_state)) = documents ex_state"
proof -
  have e1: "lower_latin1 (splitext_ext (u ''notes.txt'')) \<notin> set allowed_ext" by code_simp
  have e2: "lower_latin1 (splitext_ext (u ''plan.XLSX'')) \<in> set allowed_ext" by code_simp
  have p: "upload_path 7 (u ''plan.XLSX'') = u ''uploads/7_plan.XLSX''" by code_simp
  have f: "(if lower_latin1 (splitext_ext (u ''plan.XLSX'')) \<in> set [u ''.xlsx'', u ''.xls'']
            then failing_parser ''x'' else failing_parser ''x'') = Inl ''File is not a zip file''"
    by (simp add: failing_parser_def)
  note t1 = upload_document_failures[where lower_fn = lower_latin1 and filename = "u ''notes.txt''" and parse_excel = failing_parser
      and parse_word = failing_parser and stamp = 7 and now = "''t1''" and new_id = "''d2''"
      and bytes = "''x''" and form_name = None and save = Saved and s = ex_state,
      THEN conjunct1, rule_format, OF e1]
  note t2 = upload_document_failures[where lower_fn = lower_latin1 and filename = "u ''plan.XLSX''" and parse_excel = failing_parser
      and parse_word = failing_parser and stamp = 7 and now = "''t1''" and new_id = "''d2''"
      and bytes = "''x''" and form_name = None and s = ex_state and e = "''File is not a zip file''",
      THEN conjunct2, rule_format, OF conjI[OF e2 f]]
  from t2 have t2a: "snd (upload_document lower_latin1 failing_parser failing_parser 7 ''t1'' ''d2'' (Some (u ''plan.XLSX'', ''x'')) None
            Saved ex_state)
       = Failure 500 ''Failed to parse file: File is not a zip file''" by simp
  from t2 p have t2b: "u ''uploads/7_plan.XLSX''
        \<notin> files (fst (upload_document lower_latin1 failing_parser failing_parser 7 ''t1'' ''d2''
                        (Some (u ''plan.XLSX'', ''x'')) None Saved ex_state))" by metis
  from t2 have t2c: "documents (fst (upload_document lower_latin1 failing_parser failing_parser 7 ''t1'' ''d2''
                        (Some (u ''plan.XLSX'', ''x'')) None Saved ex_state)) = documents ex_state" by blast
  from e1 e2 t1 t2a t2b t2c show ?thesis by (simp add: failing_parser_def)
qed

section \<open>Registration\<close>

lemma map_of_broadcast_live:
  assumes "distinct (map fst cl)" and "map_of cl k = Some c" and "live c"
  shows "map_of (broadcast m cl) k = Some (deliver [m] c)"
  unfolding broadcast_eq[OF assms(1)] map_of_fan[OF assms(1,2)] using assms(3) by simp

lemma ws_send_live: "live c \<Longrightarrow> ws_send (ws c) m = Some (ws (deliver [m] c))"
  by (simp add: live_def ws_send_def deliver_def)

lemma deliver_ws: "c\<lparr>ws := ws (deliver ms c)\<rparr> = deliver ms c"
  by (simp add: deliver_def)

lemma live_rebind [simp]: "live (c\<lparr>role := r, centerId := b\<rparr>) = live c"
  by (simp add: live_def)

lemma handle_message_display_live:
  assumes d: "distinct (map fst (clients s))"
    and cl: "map_of (clients s) client_id = Some cl"
    and lv: "live cl"
  shows "map_of (clients (handle_message client_id (REGISTER_DISPLAY center_ref) s)) client_id =
           Some (deliver (register_reply s center_ref) (cl\<lparr>role := Some Display, centerId := center_ref\<rparr>))"
proof -
  let ?cl' = "cl\<lparr>role := Some Display, centerId := center_ref\<rparr>"
  let ?reg = "AList.update client_id ?cl' (clients s)"
  have d1: "distinct (map fst ?reg)" using d by (rule distinct_update)
  have m1: "map_of ?reg client_id = Some ?cl'" by (simp add: update_conv')
  have l1: "live ?cl'" using lv by simp
  have b: "\<And>m. map_of (broadcast m ?reg) client_id = Some (deliver [m] ?cl')"
    by (rule map_of_broadcast_live[OF d1 m1 l1])
  have sd: "\<And>m m'. ws_send (ws (deliver [m] ?cl')) m' = Some (ws (deliver [m'] (deliver [m] ?cl')))"
    by (rule ws_send_live) (simp add: lv)
  show ?thesis
  proof (cases center_ref)
    case None
    then show ?thesis by (simp add: handle_message_def cl Let_def register_reply_def update_conv')
  next
    case (Some k)
    note cr = Some
    note b' = b[unfolded cr] and sd' = sd[unfolded cr]
    show ?thesis
    proof (cases "map_of (centers s) k")
      case None
      with cr show ?thesis
        by (simp add: handle_message_def cl Let_def register_reply_def update_conv')
    next
      case (Some c)
      note c = Some
      show ?thesis
      proof (cases "assignedDoc c")
        case None
        with c \<open>center_ref = Some k\<close> show ?thesis
          by (simp add: handle_message_def cl Let_def register_reply_def b')
      next
        case (Some a)
        note a = Some
        show ?thesis
        proof (cases "map_of (documents s) (a_id a)")
          case None
          with a c \<open>center_ref = Some k\<close> show ?thesis
            by (simp add: handle_message_def cl Let_def register_reply_def b')
        next
          case (Some doc)
          with a c \<open>center_ref = Some k\<close> show ?thesis
            by (simp add: handle_message_def cl Let_def register_reply_def b' sd' deliver_ws update_conv')
        qed
      qed
    qed
  qed
qed

lemma handle_message_dashboard:
  assumes "map_of (clients s) client_id = Some cl"
  shows "handle_message client_id REGISTER_DASHBOARD s =
           s\<lparr>clients := AList.update client_id (cl\<lparr>role := Some Dashboard\<rparr>) (clients s)\<rparr>"
  by (simp add: handle_message_def assms)

lemma ws_connect_entry:
  "\<exists>w'. map_of (clients (ws_connect client_id w s)) client_id =
           Some \<lparr>ws = w', role = None, centerId = None\<rparr>"
  by (auto simp: ws_connect_def Let_def update_conv' split: option.splits)

text \<open>
  C6, as the code has it. A new entry is bound to no role and no center. A dashboard
  registration sets the role and keeps the center; a display registration sets the role
  and the center to the one named, whatever the entry was bound to before; any other
  message changes nothing.
\<close>

theorem registration_binds:
  "binding client_id (ws_connect client_id w s) = Some (None, None)
   \<and> (binding client_id s = Some (r, b) \<longrightarrow>
        binding client_id (handle_message client_id REGISTER_DASHBOARD s) = Some (Some Dashboard, b))
   \<and> (distinct (map fst (clients s)) \<and> map_of (clients s) client_id = Some cl \<and> live cl \<longrightarrow>
        binding client_id (handle_message client_id (REGISTER_DISPLAY center_ref) s)
          = Some (Some Display, center_ref))
   \<and> handle_message client_id OTHER s = s"
proof (intro conjI impI)
  from ws_connect_entry[of client_id w s]
  show "binding client_id (ws_connect client_id w s) = Some (None, None)"
    by (auto simp: binding_def)
next
  assume "binding client_id s = Some (r, b)"
  then obtain c where c: "map_of (clients s) client_id = Some c" "centerId c = b"
    by (auto simp: binding_def)
  show "binding client_id (handle_message client_id REGISTER_DASHBOARD s) = Some (Some Dashboard, b)"
    unfolding handle_message_dashboard[OF c(1)] by (simp add: binding_def update_conv' c(2))
next
  assume "distinct (map fst (clients s)) \<and> map_of (clients s) client_id = Some cl \<and> live cl"
  then have "map_of (clients (handle_message client_id (REGISTER_DISPLAY center_ref) s)) client_id =
           Some (deliver (register_reply s center_ref) (cl\<lparr>role := Some Display, centerId := center_ref\<rparr>))"
    by (intro handle_message_display_live) simp_all
  then show "binding client_id (handle_message client_id (REGISTER_DISPLAY center_ref) s)
          = Some (Some Display, center_ref)"
    by (simp add: binding_def)
next
  show "handle_message client_id OTHER s = s"
    by (simp add: handle_message_def split: option.splits)
qed

theorem registration_binds_witness:
  "binding ''k1'' ex_state = Some (Some Display, Some ''c1'')
   \<and> distinct (map fst (clients ex_state))
   \<and> map_of (clients ex_state) ''k1'' = Some ex_display
   \<and> live ex_display
   \<and> binding ''k1'' (handle_message ''k1'' REGISTER_DASHBOARD ex_state) = Some (Some Dashboard, Some ''c1'')
   \<and> binding ''k1'' (handle_message ''k1'' (REGISTER_DISPLAY (Some ''c2'')) ex_state)
       = Some (Some Display, Some ''c2'')"
proof -
  have a: "binding ''k1'' ex_state = Some (Some Display, Some ''c1'')"
    by (simp add: binding_def ex_state_def ex_clients_def ex_display_def)
  have d: "distinct (map fst (clients ex_state))" by (simp add: ex_state_def ex_clients_def)
  have m: "map_of (clients ex_state) ''k1'' = Some ex_display" by (simp add: ex_state_def ex_clients_def)
  have l: "live ex_display" by (simp add: live_def ex_display_def open_socket_def)
  note t = registration_binds[where s = ex_state and client_id = "''k1''" and r = "Some Display"
      and b = "Some ''c1''" and cl = ex_display and center_ref = "Some ''c2''"]
  from t a have r1: "binding ''k1'' (handle_message ''k1'' REGISTER_DASHBOARD ex_state) = Some (Some Dashboard, Some ''c1'')"
    by blast
  from t d m l have r2: "binding ''k1'' (handle_message ''k1'' (REGISTER_DISPLAY (Some ''c2'')) ex_state)
       = Some (Some Display, Some ''c2'')"
    by blast
  from a d m l r1 r2 show ?thesis by blast
qed

text \<open>
  A channel that registers as display of one center, then of another, then as dashboard,
  is rebound each time.
\<close>

theorem rebinding_counterexample:
  "map (binding ''k9'') rebinding_trace =
     [Some (None, None), Some (Some Display, Some ''c1''),
      Some (Some Display, Some ''c2''), Some (Some Dashboard, Some ''c2'')]"
  by code_simp

section \<open>Assignments stay within the store\<close>

lemma assigned_in_store_iff: "assigned_in_store s = refs_ok (centers s) (documents s)"
  by (auto simp: assigned_in_store_def refs_ok_def list_all_iff split: option.splits)

lemma doc_keys_ok_iff: "doc_keys_ok s = keys_ok (documents s)"
  by (simp add: doc_keys_ok_def keys_ok_def list_all_iff)

lemma in_set_deleteD: "x \<in> set (AList.delete k al) \<Longrightarrow> x \<in> set al"
  by (auto simp: AList.delete_eq)

lemma keys_update: "fst ` set (AList.update k v al) = insert k (fst ` set al)"
  by (induction al) auto

lemma keys_delete: "fst ` set (AList.delete k al) = fst ` set al - {k}"
  by (auto simp: AList.delete_eq image_iff)

lemma keys_ok_update: "keys_ok ds \<Longrightarrow> d_id d = k \<Longrightarrow> keys_ok (AList.update k d ds)"
  unfolding keys_ok_def by (auto dest!: in_set_updateD)

lemma keys_ok_delete: "keys_ok ds \<Longrightarrow> keys_ok (AList.delete k ds)"
  unfolding keys_ok_def by (auto dest!: in_set_deleteD)

lemma refs_ok_update_center:
  assumes "refs_ok cs ds"
    and "\<And>a. assignedDoc c' = Some a \<Longrightarrow> a_id a \<in> fst ` set ds"
  shows "refs_ok (AList.update k c' cs) ds"
  using assms unfolding refs_ok_def by (auto dest!: in_set_updateD)

lemma refs_ok_delete_center: "refs_ok cs ds \<Longrightarrow> refs_ok (AList.delete k cs) ds"
  unfolding refs_ok_def by (auto dest!: in_set_deleteD)

lemma refs_ok_update_doc: "refs_ok cs ds \<Longrightarrow> refs_ok cs (AList.update k d ds)"
  unfolding refs_ok_def keys_update by auto

lemma refs_ok_cascade:
  assumes "refs_ok cs ds"
  shows "refs_ok (map (\<lambda>(k, c). (k, if references doc_id c then cleared c else c)) cs)
           (AList.delete doc_id ds)"
  using assms unfolding refs_ok_def keys_delete
  by (auto simp: references_def cleared_def split: if_splits option.splits)

lemma refs_ok_lookup:
  assumes "refs_ok cs ds" and "map_of cs k = Some c" and "assignedDoc c = Some a"
  shows "a_id a \<in> fst ` set ds"
  using assms map_of_SomeD[OF assms(2)] unfolding refs_ok_def by auto

lemma keys_ok_lookup:
  assumes "keys_ok ds" and "map_of ds k = Some d"
  shows "d_id d = k" and "k \<in> fst ` set ds"
  using assms map_of_SomeD[OF assms(2)] unfolding keys_ok_def by force+

lemma store_inv_same:
  "store_inv s \<Longrightarrow> centers s' = centers s \<Longrightarrow> documents s' = documents s \<Longrightarrow> store_inv s'"
  by (simp add: store_inv_def)

lemma store_inv_center:
  assumes "store_inv s" and "documents s' = documents s"
    and "centers s' = AList.update k c' (centers s)"
    and "\<And>a. assignedDoc c' = Some a \<Longrightarrow> a_id a \<in> fst ` set (documents s)"
  shows "store_inv s'"
  using assms(1) unfolding store_inv_def assms(2,3)
  by (auto intro: refs_ok_update_center assms(4))

lemma store_inv_center_same_doc:
  assumes "store_inv s" and "documents s' = documents s"
    and "centers s' = AList.update k c' (centers s)"
    and "map_of (centers s) k = Some c" and "assignedDoc c' = assignedDoc c"
  shows "store_inv s'"
proof (rule store_inv_center[OF assms(1,2,3)])
  fix a assume "assignedDoc c' = Some a"
  with assms(5) have "assignedDoc c = Some a" by simp
  from refs_ok_lookup[OF _ assms(4) this] assms(1)
  show "a_id a \<in> fst ` set (documents s)" by (simp add: store_inv_def)
qed

lemma store_inv_upload:
  assumes "store_inv s"
  shows "store_inv (fst (upload_document lower_fn pe pw stamp now new_id upload form_name save s))"
  using assms
  by (auto simp: upload_document_def Let_def store_inv_def
      intro!: keys_ok_update refs_ok_update_doc
      split: option.splits sum.splits prod.splits save_outcome.splits)

lemma store_inv_delete_document:
  assumes "store_inv s"
  shows "store_inv (fst (delete_document doc_id s))"
proof (cases "map_of (documents s) doc_id")
  case None
  then show ?thesis using assms by (simp add: delete_document_def)
next
  case (Some doc)
  obtain cs' cl' where cas: "cascade doc_id (centers s) (clients s) = (cs', cl')"
    by (cases "cascade doc_id (centers s) (clients s)")
  have cs': "cs' = map (\<lambda>(k, c). (k, if references doc_id c then cleared c else c)) (centers s)"
    using cascade_centers[of doc_id "centers s" "clients s"] cas by simp
  have c: "centers (fst (delete_document doc_id s)) = cs'"
    and d: "documents (fst (delete_document doc_id s)) = AList.delete doc_id (documents s)"
    by (simp_all add: delete_document_def Some cas Let_def)
  from assms show ?thesis
    unfolding store_inv_def c d cs'
    by (auto intro: keys_ok_delete refs_ok_cascade)
qed

lemma store_inv_create_center:
  assumes "store_inv s"
  shows "store_inv (fst (create_center lower_fn now new_id name_in color_in s))"
proof (cases "strip_chars py_space name_in = []")
  case True
  then show ?thesis using assms by (simp add: create_center_def)
next
  case False
  let ?c = "\<lparr>c_id = new_id, c_name = strip_chars py_space name_in,
             slug = make_slug lower_fn (centers s) (strip_chars py_space name_in),
             color = (case color_in of None \<Rightarrow> ''#2563eb'' | Some x \<Rightarrow> x),
             assignedDoc = None, currentPage = 0, connected = False, createdAt = now\<rparr>"
  show ?thesis
  proof (rule store_inv_center[OF assms, where k = new_id and c' = ?c])
    show "documents (fst (create_center lower_fn now new_id name_in color_in s)) = documents s"
      using False by (simp add: create_center_def Let_def)
    show "centers (fst (create_center lower_fn now new_id name_in color_in s)) = AList.update new_id ?c (centers s)"
      using False by (simp add: create_center_def Let_def)
  qed simp
qed

lemma store_inv_update_center:
  assumes "store_inv s"
  shows "store_inv (fst (update_center center_id name_in color_in s))"
proof (cases "map_of (centers s) center_id")
  case None
  then show ?thesis using assms by (simp add: update_center_def)
next
  case (Some c)
  let ?c1 = "case name_in of None \<Rightarrow> c | Some n \<Rightarrow> c\<lparr>c_name := n\<rparr>"
  let ?c2 = "case color_in of None \<Rightarrow> ?c1 | Some x \<Rightarrow> ?c1\<lparr>color := x\<rparr>"
  show ?thesis
  proof (rule store_inv_center_same_doc[OF assms _ _ Some, where c' = ?c2])
    show "documents (fst (update_center center_id name_in color_in s)) = documents s"
      by (simp add: update_center_def Some Let_def)
    show "centers (fst (update_center center_id name_in color_in s)) = AList.update center_id ?c2 (centers s)"
      by (simp add: update_center_def Some Let_def)
    show "assignedDoc ?c2 = assignedDoc c" by (simp split: option.splits)
  qed
qed

lemma store_inv_delete_center:
  assumes "store_inv s"
  shows "store_inv (fst (delete_center center_id s))"
  using assms by (auto simp: delete_center_def Let_def store_inv_def intro: refs_ok_delete_center)

lemma store_inv_assign:
  assumes "store_inv s"
  shows "store_inv (fst (assign_document center_id doc_ref s))"
proof (cases "map_of (centers s) center_id")
  case None
  then show ?thesis using assms by (simp add: assign_document_def)
next
  case (Some c)
  note c = Some
  show ?thesis
  proof (cases "given_id doc_ref")
    case None
    show ?thesis
    proof (rule store_inv_center[OF assms, where k = center_id and c' = "c\<lparr>assignedDoc := None, currentPage := 0\<rparr>"])
      show "documents (fst (assign_document center_id doc_ref s)) = documents s"
        by (simp add: assign_document_def c None Let_def)
      show "centers (fst (assign_document center_id doc_ref s)) =
              AList.update center_id (c\<lparr>assignedDoc := None, currentPage := 0\<rparr>) (centers s)"
        by (simp add: assign_document_def c None Let_def)
    qed simp
  next
    case (Some d)
    note d = Some
    show ?thesis
    proof (cases "map_of (documents s) d")
      case None
      then show ?thesis using assms by (simp add: assign_document_def c d)
    next
      case (Some doc)
      let ?c' = "c\<lparr>assignedDoc := Some \<lparr>a_id = d_id doc, a_name = d_name doc, a_type = d_type doc\<rparr>,
                   currentPage := 0\<rparr>"
      from assms have k: "keys_ok (documents s)" by (simp add: store_inv_def)
      show ?thesis
      proof (rule store_inv_center[OF assms, where k = center_id and c' = ?c'])
        show "documents (fst (assign_document center_id doc_ref s)) = documents s"
          by (simp add: assign_document_def c d Some Let_def)
        show "centers (fst (assign_document center_id doc_ref s)) = AList.update center_id ?c' (centers s)"
          by (simp add: assign_document_def c d Some Let_def)
        fix a assume "assignedDoc ?c' = Some a"
        then have "a_id a = d_id doc" by auto
        with keys_ok_lookup[OF k Some] show "a_id a \<in> fst ` set (documents s)" by simp
      qed
    qed
  qed
qed

lemma store_inv_set_page:
  assumes "store_inv s"
  shows "store_inv (fst (set_page center_id page_in s))"
  using set_page_centers[of center_id page_in s]
proof
  assume "centers (fst (set_page center_id page_in s)) = centers s"
  then show ?thesis by (rule store_inv_same[OF assms _ set_page_documents])
next
  assume "\<exists>c a doc. map_of (centers s) center_id = Some c \<and> assignedDoc c = Some a
         \<and> map_of (documents s) (a_id a) = Some doc
         \<and> centers (fst (set_page center_id page_in s)) =
             AList.update center_id
               (c\<lparr>currentPage := max 0 (min (case page_in of None \<Rightarrow> 0 | Some p \<Rightarrow> p)
                                          (int (length (pages doc)) - 1))\<rparr>) (centers s)"
  then obtain c a doc where h: "map_of (centers s) center_id = Some c"
      "centers (fst (set_page center_id page_in s)) =
             AList.update center_id
               (c\<lparr>currentPage := max 0 (min (case page_in of None \<Rightarrow> 0 | Some p \<Rightarrow> p)
                                          (int (length (pages doc)) - 1))\<rparr>) (centers s)"
      "assignedDoc c = Some a" "map_of (documents s) (a_id a) = Some doc"
    by blast
  show ?thesis
  proof (rule store_inv_center_same_doc[OF assms _ h(2) h(1)])
    show "documents (fst (set_page center_id page_in s)) = documents s"
      by (rule set_page_documents)
  qed simp
qed

lemma store_inv_connect:
  assumes "store_inv s"
  shows "store_inv (ws_connect client_id w s)"
  by (rule store_inv_same[OF assms]) (simp_all add: ws_connect_def Let_def split: option.splits)

lemma store_inv_close:
  assumes "store_inv s"
  shows "store_inv (ws_close client_id s)"
  by (rule store_inv_same[OF assms]) (simp_all add: ws_close_def split: option.splits)

lemma handle_message_documents: "documents (handle_message client_id msg s) = documents s"
  by (simp add: handle_message_def Let_def split: option.splits inbound.splits)

lemma handle_message_centers:
  "centers (handle_message client_id msg s) = centers s
   \<or> (\<exists>k c. map_of (centers s) k = Some c
         \<and> centers (handle_message client_id msg s) = AList.update k (c\<lparr>connected := True\<rparr>) (centers s))"
  by (auto simp: handle_message_def Let_def split: option.splits inbound.splits)

lemma store_inv_message:
  assumes "store_inv s"
  shows "store_inv (handle_message client_id msg s)"
  using handle_message_centers[of client_id msg s]
proof
  assume "centers (handle_message client_id msg s) = centers s"
  then show ?thesis by (rule store_inv_same[OF assms _ handle_message_documents])
next
  assume "\<exists>k c. map_of (centers s) k = Some c
         \<and> centers (handle_message client_id msg s) = AList.update k (c\<lparr>connected := True\<rparr>) (centers s)"
  then obtain k c where h: "map_of (centers s) k = Some c"
    "centers (handle_message client_id msg s) = AList.update k (c\<lparr>connected := True\<rparr>) (centers s)"
    by blast
  show ?thesis
    by (rule store_inv_center_same_doc[OF assms handle_message_documents h(2) h(1)]) simp
qed

lemma ws_disconnect_documents: "documents (ws_disconnect client_id s) = documents s"
  by (simp add: ws_disconnect_def Let_def split: option.splits)

lemma ws_disconnect_centers:
  "centers (ws_disconnect client_id s) = centers s
   \<or> (\<exists>k c. map_of (centers s) k = Some c
         \<and> centers (ws_disconnect client_id s) = AList.update k (c\<lparr>connected := False\<rparr>) (centers s))"
  by (auto simp: ws_disconnect_def Let_def split: option.splits)

lemma store_inv_disconnect:
  assumes "store_inv s"
  shows "store_inv (ws_disconnect client_id s)"
  using ws_disconnect_centers[of client_id s]
proof
  assume "centers (ws_disconnect client_id s) = centers s"
  then show ?thesis by (rule store_inv_same[OF assms _ ws_disconnect_documents])
next
  assume "\<exists>k c. map_of (centers s) k = Some c
         \<and> centers (ws_disconnect client_id s) = AList.update k (c\<lparr>connected := False\<rparr>) (centers s)"
  then obtain k c where h: "map_of (centers s) k = Some c"
    "centers (ws_disconnect client_id s) = AList.update k (c\<lparr>connected := False\<rparr>) (centers s)"
    by blast
  show ?thesis
    by (rule store_inv_center_same_doc[OF assms ws_disconnect_documents h(2) h(1)]) simp
qed

lemma reachable_store_inv: "reachable s \<Longrightarrow> store_inv s"
proof (induction rule: reachable.induct)
  case (r_init on_disk)
  show ?case by (simp add: store_inv_def init_def keys_ok_def refs_ok_def)
qed (simp_all add: store_inv_upload store_inv_delete_document store_inv_create_center
      store_inv_update_center store_inv_delete_center store_inv_assign store_inv_set_page
      store_inv_connect store_inv_message store_inv_disconnect store_inv_close)

lemma stored_lookup:
  assumes "store_inv s" and "map_of (centers s) k = Some c" and "assignedDoc c = Some a"
  shows "\<exists>doc. map_of (documents s) (a_id a) = Some doc"
proof -
  from assms(1) have "refs_ok (centers s) (documents s)" by (simp add: store_inv_def)
  from refs_ok_lookup[OF this assms(2,3)] have "a_id a \<in> fst ` set (documents s)" .
  then have "map_of (documents s) (a_id a) \<noteq> None" by (simp add: map_of_eq_None_iff)
  then show ?thesis by blast
qed

text \<open>
  C10. In every reachable state the document id of every assignment is a key of the
  document store, so \<^verbatim>\<open>set_page\<close> never answers \<open>Document not found\<close>.
\<close>

theorem assigned_document_stored:
  assumes "reachable s"
  shows "assigned_in_store s
     \<and> (\<forall>k c a. map_of (centers s) k = Some c \<and> assignedDoc c = Some a \<longrightarrow>
           (\<exists>doc. map_of (documents s) (a_id a) = Some doc))
     \<and> (\<forall>center_id page_in.
           snd (set_page center_id page_in s) \<noteq> Failure 404 ''Document not found'')"
proof (intro conjI allI impI)
  from assms have inv: "store_inv s" by (rule reachable_store_inv)
  then show "assigned_in_store s" by (simp add: assigned_in_store_iff store_inv_def)
  {
    fix k c a assume "map_of (centers s) k = Some c \<and> assignedDoc c = Some a"
    then show "\<exists>doc. map_of (documents s) (a_id a) = Some doc"
      using stored_lookup[OF inv] by blast
  }
  fix center_id page_in
  show "snd (set_page center_id page_in s) \<noteq> Failure 404 ''Document not found''"
  proof (cases "map_of (centers s) center_id")
    case None
    then show ?thesis by (simp add: set_page_def)
  next
    case (Some c)
    note c = Some
    show ?thesis
    proof (cases "assignedDoc c")
      case None
      with c show ?thesis by (simp add: set_page_def)
    next
      case (Some a)
      from stored_lookup[OF inv c Some] obtain doc where "map_of (documents s) (a_id a) = Some doc"
        by blast
      with c Some show ?thesis by (simp add: set_page_def Let_def)
    qed
  qed
qed

theorem assigned_document_stored_witness:
  "reachable line_a_state
   \<and> assigned_in_store line_a_state
   \<and> map_option assignedDoc (map_of (centers line_a_state) ''c1'')
       = Some (Some \<lparr>a_id = ''d1'', a_name = u ''plan.xlsx'', a_type = Excel\<rparr>)
   \<and> (\<exists>doc. map_of (documents line_a_state) ''d1'' = Some doc)
   \<and> snd (set_page ''c1'' (Some 5) line_a_state) \<noteq> Failure 404 ''Document not found''"
proof -
  have r: "reachable line_a_state"
    unfolding line_a_state_def by (intro reachable.intros)
  note t = assigned_document_stored[OF r]
  have a: "map_option assignedDoc (map_of (centers line_a_state) ''c1'')
       = Some (Some \<lparr>a_id = ''d1'', a_name = u ''plan.xlsx'', a_type = Excel\<rparr>)"
    by code_simp
  then obtain c where c: "map_of (centers line_a_state) ''c1'' = Some c"
    "assignedDoc c = Some \<lparr>a_id = ''d1'', a_name = u ''plan.xlsx'', a_type = Excel\<rparr>"
    by auto
  from t c have "\<exists>doc. map_of (documents line_a_state) (a_id \<lparr>a_id = ''d1'', a_name = u ''plan.xlsx'', a_type = Excel\<rparr>) = Some doc"
    by blast
  then have d: "\<exists>doc. map_of (documents line_a_state) ''d1'' = Some doc" by simp
  from t have p: "snd (set_page ''c1'' (Some 5) line_a_state) \<noteq> Failure 404 ''Document not found''"
    by blast
  from t have i: "assigned_in_store line_a_state" by blast
  from r i a d p show ?thesis by blast
qed

section \<open>Late join\<close>

lemma handle_message_display_centers:
  assumes "map_of (clients s) client_id = Some cl" and "map_of (centers s) k = Some c"
  shows "centers (handle_message client_id (REGISTER_DISPLAY (Some k)) s)
           = AList.update k (c\<lparr>connected := True\<rparr>) (centers s)"
  using assms by (simp add: handle_message_def Let_def split: option.splits)

lemma handle_message_distinct:
  assumes "distinct (map fst (clients s))"
  shows "distinct (map fst (clients (handle_message client_id msg s)))"
  using assms
  by (simp add: handle_message_def Let_def distinct_update distinct_broadcast
      split: option.splits inbound.splits)

lemma register_reply_assigned:
  assumes "map_of (centers s) k = Some c" and "assignedDoc c = Some a"
    and "map_of (documents s) (a_id a) = Some doc"
  shows "register_reply s (Some k)
           = [CENTER_UPDATED (c\<lparr>connected := True\<rparr>), DOCUMENT_ASSIGNED doc (currentPage c)]"
  using assms by (simp add: register_reply_def)

text \<open>
  C7. When a live entry registers as display of a center that has a stored document
  assigned, it is sent the updated center and then \<open>DOCUMENT_ASSIGNED\<close> carrying that
  document and the center's current page; registering a second time sends the same
  snapshot again. In a reachable state the id of the document sent is the id the
  assignment names.
\<close>

theorem display_late_join:
  assumes d: "distinct (map fst (clients s))"
    and cl: "map_of (clients s) client_id = Some cl"
    and lv: "live cl"
    and c: "map_of (centers s) center_id = Some c"
    and a: "assignedDoc c = Some a"
    and doc: "map_of (documents s) (a_id a) = Some doc"
  shows "map_of (clients (handle_message client_id (REGISTER_DISPLAY (Some center_id)) s)) client_id
           = Some (deliver [CENTER_UPDATED (c\<lparr>connected := True\<rparr>),
                            DOCUMENT_ASSIGNED doc (currentPage c)]
                     (cl\<lparr>role := Some Display, centerId := Some center_id\<rparr>))
     \<and> map_of (clients (handle_message client_id (REGISTER_DISPLAY (Some center_id))
                  (handle_message client_id (REGISTER_DISPLAY (Some center_id)) s))) client_id
           = Some (deliver [CENTER_UPDATED (c\<lparr>connected := True\<rparr>),
                            DOCUMENT_ASSIGNED doc (currentPage c),
                            CENTER_UPDATED (c\<lparr>connected := True\<rparr>),
                            DOCUMENT_ASSIGNED doc (currentPage c)]
                     (cl\<lparr>role := Some Display, centerId := Some center_id\<rparr>))
     \<and> (reachable s \<longrightarrow> d_id doc = a_id a)"
proof (intro conjI impI)
  let ?s1 = "handle_message client_id (REGISTER_DISPLAY (Some center_id)) s"
  let ?c' = "c\<lparr>connected := True\<rparr>"
  let ?cl' = "cl\<lparr>role := Some Display, centerId := Some center_id\<rparr>"
  let ?snap = "[CENTER_UPDATED ?c', DOCUMENT_ASSIGNED doc (currentPage c)]"
  show first: "map_of (clients ?s1) client_id = Some (deliver ?snap ?cl')"
    unfolding handle_message_display_live[OF d cl lv] register_reply_assigned[OF c a doc] ..
  have d1: "distinct (map fst (clients ?s1))" using d by (rule handle_message_distinct)
  have l1: "live (deliver ?snap ?cl')" using lv by simp
  have c1: "map_of (centers ?s1) center_id = Some ?c'"
    unfolding handle_message_display_centers[OF cl c] by (simp add: update_conv')
  have a1: "assignedDoc ?c' = Some a" using a by simp
  have doc1: "map_of (documents ?s1) (a_id a) = Some doc"
    unfolding handle_message_documents by (rule doc)
  have "map_of (clients (handle_message client_id (REGISTER_DISPLAY (Some center_id)) ?s1)) client_id
      = Some (deliver [CENTER_UPDATED (?c'\<lparr>connected := True\<rparr>), DOCUMENT_ASSIGNED doc (currentPage ?c')]
                ((deliver ?snap ?cl')\<lparr>role := Some Display, centerId := Some center_id\<rparr>))"
    unfolding handle_message_display_live[OF d1 first l1] register_reply_assigned[OF c1 a1 doc1] ..
  then show "map_of (clients (handle_message client_id (REGISTER_DISPLAY (Some center_id)) ?s1)) client_id
           = Some (deliver [CENTER_UPDATED ?c', DOCUMENT_ASSIGNED doc (currentPage c),
                            CENTER_UPDATED ?c', DOCUMENT_ASSIGNED doc (currentPage c)] ?cl')"
    by (simp add: deliver_def)
next
  assume "reachable s"
  then have "keys_ok (documents s)" using reachable_store_inv by (simp add: store_inv_def)
  from keys_ok_lookup(1)[OF this doc] show "d_id doc = a_id a" .
qed

theorem display_late_join_witness:
  "reachable display_state
   \<and> distinct (map fst (clients display_state))
   \<and> map_of (clients display_state) ''k1'' = Some line_a_entry
   \<and> live line_a_entry
   \<and> map_of (centers display_state) ''c1'' = Some line_a_center
   \<and> assignedDoc line_a_center = Some line_a_assigned
   \<and> map_of (documents display_state) (a_id line_a_assigned) = Some line_a_doc
   \<and> map_of (clients (handle_message ''k1'' (REGISTER_DISPLAY (Some ''c1'')) display_state)) ''k1''
       = Some (deliver [CENTER_UPDATED (line_a_center\<lparr>connected := True\<rparr>),
                        DOCUMENT_ASSIGNED line_a_doc 2]
                 (line_a_entry\<lparr>role := Some Display, centerId := Some ''c1''\<rparr>))
   \<and> map_of (clients (handle_message ''k1'' (REGISTER_DISPLAY (Some ''c1''))
                (handle_message ''k1'' (REGISTER_DISPLAY (Some ''c1'')) display_state))) ''k1''
       = Some (deliver [CENTER_UPDATED (line_a_center\<lparr>connected := True\<rparr>),
                        DOCUMENT_ASSIGNED line_a_doc 2,
                        CENTER_UPDATED (line_a_center\<lparr>connected := True\<rparr>),
                        DOCUMENT_ASSIGNED line_a_doc 2]
                 (line_a_entry\<lparr>role := Some Display, centerId := Some ''c1''\<rparr>))
   \<and> d_id line_a_doc = a_id line_a_assigned"
proof -
  have r: "reachable display_state"
    unfolding display_state_def line_a_state_def by (intro reachable.intros)
  have d: "distinct (map fst (clients display_state))" by code_simp
  have cl: "map_of (clients display_state) ''k1'' = Some line_a_entry" by code_simp
  have lv: "live line_a_entry" by code_simp
  have c: "map_of (centers display_state) ''c1'' = Some line_a_center" by code_simp
  have a: "assignedDoc line_a_center = Some line_a_assigned" by code_simp
  have doc: "map_of (documents display_state) (a_id line_a_assigned) = Some line_a_doc" by code_simp
  have p: "currentPage line_a_center = 2" by (simp add: line_a_center_def)
  note t = display_late_join[OF d cl lv c a doc, unfolded p]
  from t r have "d_id line_a_doc = a_id line_a_assigned" by blast
  with t r d cl lv c a doc show ?thesis by blast
qed

section \<open>Slugs\<close>

lemma u_hyphen: "u ''-'' = [0x2D]"
  by (simp add: u_def)

lemma py_space_not_slug_char: "py_space c \<Longrightarrow> \<not> slug_char c"
  unfolding py_space_def slug_char_def by auto

lemma hyphenate_runs_re_sub:
  assumes "\<forall>c\<in>set s. alnum c = slug_char c"
  shows "hyphenate_runs alnum False s = re_sub_hyphen s
       \<and> hyphenate_runs alnum True s = re_sub_hyphen (dropWhile (\<lambda>x. \<not> slug_char x) s)"
  using assms by (induction s) auto

lemma drop_hyphen_re_sub_run:
  "dropWhile is_hyphen (re_sub_hyphen (dropWhile (\<lambda>x. \<not> slug_char x) s))
     = dropWhile is_hyphen (re_sub_hyphen s)"
  by (cases s) (auto simp: is_hyphen_def)

lemma drop_hyphen_re_sub_strip:
  assumes "\<And>c. P c \<Longrightarrow> \<not> slug_char c"
  shows "dropWhile is_hyphen (re_sub_hyphen (dropWhile P s)) = dropWhile is_hyphen (re_sub_hyphen s)"
proof (induction s)
  case Nil
  then show ?case by simp
next
  case (Cons c cs)
  show ?case
  proof (cases "P c")
    case True
    then have n: "\<not> slug_char c" by (rule assms)
    have "dropWhile is_hyphen (re_sub_hyphen (c # cs))
        = dropWhile is_hyphen (re_sub_hyphen (dropWhile (\<lambda>x. \<not> slug_char x) cs))"
      using n by (simp add: is_hyphen_def)
    also have "\<dots> = dropWhile is_hyphen (re_sub_hyphen cs)" by (rule drop_hyphen_re_sub_run)
    finally show ?thesis using True Cons.IH by simp
  next
    case False
    then show ?thesis by simp
  qed
qed

lemma dropWhile_all: "\<forall>x\<in>set xs. P x \<Longrightarrow> dropWhile P xs = []"
  by (simp add: dropWhile_eq_Nil_conv)

lemma re_sub_all_outside:
  assumes "\<forall>c\<in>set zs. \<not> slug_char c"
  shows "re_sub_hyphen zs = (if zs = [] then [] else [0x2D])"
proof (cases zs)
  case Nil
  then show ?thesis by simp
next
  case (Cons a list)
  with assms have "\<not> slug_char a" "\<forall>x\<in>set list. \<not> slug_char x" by auto
  then show ?thesis using Cons by (simp add: dropWhile_all)
qed

lemma re_sub_append_outside:
  assumes "\<forall>c\<in>set zs. \<not> slug_char c"
  shows "re_sub_hyphen (xs @ zs)
         = re_sub_hyphen xs @ (if zs = [] \<or> (xs \<noteq> [] \<and> \<not> slug_char (last xs)) then [] else [0x2D])"
proof (induction xs rule: re_sub_hyphen.induct)
  case 1
  show ?case using re_sub_all_outside[OF assms] by simp
next
  case (2 c cs)
  show ?case
  proof (cases "slug_char c")
    case True
    with 2(1) show ?thesis by (cases cs) (auto simp: re_sub_all_outside[OF assms])
  next
    case False
    let ?N = "\<lambda>x. \<not> slug_char x"
    show ?thesis
    proof (cases "\<forall>x\<in>set cs. ?N x")
      case True
      with False assms have all1: "\<forall>x\<in>set ((c # cs) @ zs). \<not> slug_char x"
        and all2: "\<forall>x\<in>set (c # cs). \<not> slug_char x" by auto
      have l: "re_sub_hyphen ((c # cs) @ zs) = [0x2D]"
        using re_sub_all_outside[OF all1] by simp
      have r: "re_sub_hyphen (c # cs) = [0x2D]"
        using re_sub_all_outside[OF all2] by simp
      from all2 have "\<not> slug_char (last (c # cs))" using last_in_set[of "c # cs"] by blast
      then show ?thesis unfolding l r by simp
    next
      case ex: False
      then have d: "dropWhile ?N (cs @ zs) = dropWhile ?N cs @ zs"
        by (auto simp: dropWhile_append1)
      from ex have ne: "dropWhile ?N cs \<noteq> []" by auto
      then have l: "last (dropWhile ?N cs) = last (c # cs)"
        by (metis append_is_Nil_conv last.simps last_appendR takeWhile_dropWhile_id)
      from 2(2)[OF False] show ?thesis using False d ne l by simp
    qed
  qed
qed

lemma strip_hyphen_snoc: "strip_chars is_hyphen (ys @ [0x2D]) = strip_chars is_hyphen ys"
proof (cases "\<forall>y\<in>set ys. is_hyphen y")
  case True
  then have "\<forall>y\<in>set (ys @ [0x2D]). is_hyphen y" by (simp add: is_hyphen_def)
  then have "dropWhile is_hyphen (ys @ [0x2D]) = []" by (rule dropWhile_all)
  moreover from True have "dropWhile is_hyphen ys = []" by (rule dropWhile_all)
  ultimately have "dropWhile is_hyphen (ys @ [0x2D]) = []" "dropWhile is_hyphen ys = []" by blast+
  then show ?thesis by (simp only: strip_chars_def)
next
  case False
  then have "dropWhile is_hyphen (ys @ [0x2D]) = dropWhile is_hyphen ys @ [0x2D]"
    by (auto simp: dropWhile_append1)
  then show ?thesis by (simp add: strip_chars_def is_hyphen_def)
qed

lemma rstrip_split:
  "\<exists>zs. t = rev (dropWhile P (rev t)) @ zs \<and> (\<forall>c\<in>set zs. P c)"
proof -
  have "rev t = takeWhile P (rev t) @ dropWhile P (rev t)" by simp
  then have "t = rev (dropWhile P (rev t)) @ rev (takeWhile P (rev t))"
    by (metis rev_append rev_rev_ident)
  moreover have "\<forall>c\<in>set (rev (takeWhile P (rev t))). P c"
    by (auto dest: set_takeWhileD)
  ultimately show ?thesis by blast
qed

lemma slugify_strip_irrelevant:
  assumes "\<And>c. P c \<Longrightarrow> \<not> slug_char c"
  shows "strip_chars is_hyphen (re_sub_hyphen (strip_chars P s))
         = strip_chars is_hyphen (re_sub_hyphen s)"
proof -
  let ?t = "dropWhile P s"
  let ?u = "rev (dropWhile P (rev ?t))"
  from rstrip_split[of ?t P] obtain zs where zs: "?t = ?u @ zs" "\<forall>c\<in>set zs. P c" by blast
  then have out: "\<forall>c\<in>set zs. \<not> slug_char c" using assms by blast
  have "re_sub_hyphen ?t = re_sub_hyphen (?u @ zs)" using zs(1) by simp
  also have "\<dots> = re_sub_hyphen ?u @ (if zs = [] \<or> (?u \<noteq> [] \<and> \<not> slug_char (last ?u)) then [] else [0x2D])"
    by (rule re_sub_append_outside[OF out])
  finally have "strip_chars is_hyphen (re_sub_hyphen ?t) = strip_chars is_hyphen (re_sub_hyphen ?u)"
    by (simp add: strip_hyphen_snoc)
  moreover have "strip_chars is_hyphen (re_sub_hyphen ?t) = strip_chars is_hyphen (re_sub_hyphen s)"
  proof -
    have e: "dropWhile is_hyphen (re_sub_hyphen (dropWhile P s)) = dropWhile is_hyphen (re_sub_hyphen s)"
      by (rule drop_hyphen_re_sub_strip) (rule assms)
    show ?thesis by (simp only: strip_chars_def e)
  qed
  ultimately show ?thesis by (simp add: strip_chars_def)
qed

text \<open>
  The white space \<^verbatim>\<open>make_slug\<close> strips lies outside \<open>a-z0-9\<close>, so stripping it changes
  nothing: the slug is the lower-cased name with every run of code points outside
  \<open>a-z0-9\<close> replaced by a hyphen and the hyphens at both ends trimmed. That is the slug
  the specification words whenever the letters and digits of the lower-cased name are
  all in \<open>a-z0-9\<close>.
\<close>

lemma slugify_eq_slug_spec:
  assumes "\<forall>c\<in>set (lower_fn name_in). alnum c = slug_char c"
  shows "slugify lower_fn name_in = slug_spec alnum lower_fn name_in"
proof -
  from hyphenate_runs_re_sub[OF assms]
  have "hyphenate_runs alnum False (lower_fn name_in) = re_sub_hyphen (lower_fn name_in)" by simp
  then show ?thesis
    unfolding slugify_def slug_spec_def trim_hyphens_def
    using slugify_strip_irrelevant[of py_space "lower_fn name_in", OF py_space_not_slug_char]
    by (simp add: strip_chars_def)
qed

lemma slugify_class: "slugify lower_fn name_in = slug_spec slug_char lower_fn name_in"
  by (rule slugify_eq_slug_spec) simp

lemma slug_loop_free: "slug_loop taken base slug_now counter \<notin> set taken"
proof (induction taken base slug_now counter rule: slug_loop.induct)
  case (1 taken base slug_now counter)
  show ?case
  proof (cases "slug_now \<in> set taken")
    case True
    with 1 show ?thesis by (subst slug_loop.simps) simp
  next
    case False
    then show ?thesis by (subst slug_loop.simps) simp
  qed
qed

lemma slug_loop_first: "slug_now \<notin> set taken \<Longrightarrow> slug_loop taken base slug_now counter = slug_now"
  by (subst slug_loop.simps) simp

lemma slug_loop_suffix:
  "slug_now \<in> set taken \<Longrightarrow>
     \<exists>k\<ge>counter. slug_loop taken base slug_now counter = suffixed base k
        \<and> (\<forall>j. counter \<le> j \<and> j < k \<longrightarrow> suffixed base j \<in> set taken)"
proof (induction taken base slug_now counter rule: slug_loop.induct)
  case (1 taken base slug_now counter)
  from "1.prems" have step: "slug_loop taken base slug_now counter
      = slug_loop taken base (suffixed base counter) (counter + 1)"
    by (subst slug_loop.simps) simp
  show ?case
  proof (cases "suffixed base counter \<in> set taken")
    case False
    then have "slug_loop taken base slug_now counter = suffixed base counter"
      unfolding step by (rule slug_loop_first)
    then show ?thesis by (intro exI[of _ counter]) auto
  next
    case True
    from "1.IH"[OF "1.prems" True] obtain k where k: "counter + 1 \<le> k"
      "slug_loop taken base (suffixed base counter) (counter + 1) = suffixed base k"
      "\<forall>j. counter + 1 \<le> j \<and> j < k \<longrightarrow> suffixed base j \<in> set taken"
      by blast
    have "\<forall>j. counter \<le> j \<and> j < k \<longrightarrow> suffixed base j \<in> set taken"
    proof (intro allI impI)
      fix j assume j: "counter \<le> j \<and> j < k"
      show "suffixed base j \<in> set taken"
      proof (cases "j = counter")
        case True
        with \<open>suffixed base counter \<in> set taken\<close> show ?thesis by simp
      next
        case False
        with j have "counter + 1 \<le> j \<and> j < k" by simp
        with k(3) show ?thesis by blast
      qed
    qed
    with k(1,2) show ?thesis unfolding step by (intro exI[of _ k]) simp
  qed
qed

lemma create_center_named:
  assumes "strip_chars py_space name_in = nm" and "nm \<noteq> []"
  shows "\<exists>c. snd (create_center lower_fn now new_id name_in color_in s) = SuccessCenter c
           \<and> slug c = make_slug lower_fn (centers s) nm
           \<and> centers (fst (create_center lower_fn now new_id name_in color_in s))
               = AList.update new_id c (centers s)"
  using assms by (simp add: create_center_def Let_def)

text \<open>
  C2, as the code has it. The slug \<^verbatim>\<open>make_slug\<close> starts from is the name lowercased,
  with every run of characters other than \<open>a-z\<close> and \<open>0-9\<close> replaced by one hyphen and the
  hyphens at both ends trimmed; it is the slug of the specification, with its runs of
  non-alphanumeric characters, for every name whose lower-cased letters and digits are all
  among \<open>a-z\<close> and \<open>0-9\<close>. The result is never the slug of an existing center: it is that
  slug itself when it is free, and otherwise the first of \<open>-2\<close>, \<open>-3\<close>, ... that is free.
  Two centers created with the name \<open>Assembly 1\<close>, which \<^verbatim>\<open>str.lower\<close> takes to
  \<open>assembly 1\<close>, get \<open>assembly-1\<close> and \<open>assembly-1-2\<close>.
\<close>

theorem make_slug_spec:
  "slugify lower_fn name_in = slug_spec slug_char lower_fn name_in
   \<and> ((\<forall>c\<in>set (lower_fn name_in). alnum c = slug_char c) \<longrightarrow>
        slugify lower_fn name_in = slug_spec alnum lower_fn name_in)
   \<and> make_slug lower_fn cs name_in \<notin> set (map (\<lambda>(k, c). slug c) cs)
   \<and> (slug_spec slug_char lower_fn name_in \<notin> set (map (\<lambda>(k, c). slug c) cs) \<longrightarrow>
        make_slug lower_fn cs name_in = slug_spec slug_char lower_fn name_in)
   \<and> (slug_spec slug_char lower_fn name_in \<in> set (map (\<lambda>(k, c). slug c) cs) \<longrightarrow>
        (\<exists>n\<ge>2. make_slug lower_fn cs name_in
                   = slug_spec slug_char lower_fn name_in @ u ''-'' @ u (str_nat n)
           \<and> (\<forall>j. 2 \<le> j \<and> j < n \<longrightarrow>
                 slug_spec slug_char lower_fn name_in @ u ''-'' @ u (str_nat j)
                   \<in> set (map (\<lambda>(k, c). slug c) cs))))
   \<and> (lower_fn (u ''Assembly 1'') = u ''assembly 1'' \<longrightarrow>
        (\<exists>c1 c2.
           snd (create_center lower_fn now1 id1 (u ''Assembly 1'') color1 (init on_disk))
             = SuccessCenter c1
           \<and> slug c1 = u ''assembly-1''
           \<and> snd (create_center lower_fn now2 id2 (u ''Assembly 1'') color2
                    (fst (create_center lower_fn now1 id1 (u ''Assembly 1'') color1 (init on_disk))))
               = SuccessCenter c2
           \<and> slug c2 = u ''assembly-1-2''))"
proof (intro conjI impI)
  let ?taken = "map (\<lambda>(k, c). slug c) cs"
  let ?base = "slug_spec slug_char lower_fn name_in"
  have m: "make_slug lower_fn cs name_in = slug_loop ?taken ?base ?base 2"
    by (simp add: make_slug_def Let_def slugify_class)
  show "slugify lower_fn name_in = ?base" by (rule slugify_class)
  {
    assume "\<forall>c\<in>set (lower_fn name_in). alnum c = slug_char c"
    then show "slugify lower_fn name_in = slug_spec alnum lower_fn name_in"
      by (rule slugify_eq_slug_spec)
  }
  show "make_slug lower_fn cs name_in \<notin> set ?taken" unfolding m by (rule slug_loop_free)
  {
    assume "?base \<notin> set ?taken"
    then show "make_slug lower_fn cs name_in = ?base" unfolding m by (rule slug_loop_first)
  }
  {
    assume "?base \<in> set ?taken"
    from slug_loop_suffix[OF this, of 2 ?base]
    show "\<exists>n\<ge>2. make_slug lower_fn cs name_in = ?base @ u ''-'' @ u (str_nat n)
           \<and> (\<forall>j. 2 \<le> j \<and> j < n \<longrightarrow> ?base @ u ''-'' @ u (str_nat j) \<in> set ?taken)"
      unfolding m suffixed_def .
  }
  assume lw: "lower_fn (u ''Assembly 1'') = u ''assembly 1''"
  have st: "strip_chars py_space (u ''Assembly 1'') = u ''Assembly 1''" by code_simp
  have ne: "u ''Assembly 1'' \<noteq> []" by (simp add: u_def)
  have k: "strip_chars is_hyphen (re_sub_hyphen (strip_chars py_space (u ''assembly 1'')))
             = u ''assembly-1''" by code_simp
  have sl: "slugify lower_fn (u ''Assembly 1'') = u ''assembly-1''"
    by (simp add: slugify_def lw k)
  from create_center_named[OF st ne, of lower_fn now1 id1 color1 "init on_disk"]
  obtain c1 where c1:
    "snd (create_center lower_fn now1 id1 (u ''Assembly 1'') color1 (init on_disk)) = SuccessCenter c1"
    "slug c1 = make_slug lower_fn (centers (init on_disk)) (u ''Assembly 1'')"
    "centers (fst (create_center lower_fn now1 id1 (u ''Assembly 1'') color1 (init on_disk)))
       = AList.update id1 c1 (centers (init on_disk))"
    by blast
  have e1: "make_slug lower_fn [] (u ''Assembly 1'') = u ''assembly-1''"
    by (simp add: make_slug_def Let_def sl slug_loop_first)
  have s1: "slug c1 = u ''assembly-1''" using c1(2) e1 by (simp add: init_def)
  have cs1: "centers (fst (create_center lower_fn now1 id1 (u ''Assembly 1'') color1 (init on_disk)))
       = [(id1, c1)]"
    using c1(3) by (simp add: init_def)
  from create_center_named[OF st ne, of lower_fn now2 id2 color2
      "fst (create_center lower_fn now1 id1 (u ''Assembly 1'') color1 (init on_disk))"]
  obtain c2 where c2:
    "snd (create_center lower_fn now2 id2 (u ''Assembly 1'') color2
        (fst (create_center lower_fn now1 id1 (u ''Assembly 1'') color1 (init on_disk))))
       = SuccessCenter c2"
    "slug c2 = make_slug lower_fn
        (centers (fst (create_center lower_fn now1 id1 (u ''Assembly 1'') color1 (init on_disk))))
        (u ''Assembly 1'')"
    by blast
  have e2: "slug_loop [u ''assembly-1''] (u ''assembly-1'') (u ''assembly-1'') 2 = u ''assembly-1-2''"
    by code_simp
  have s2: "slug c2 = u ''assembly-1-2''"
    unfolding c2(2) cs1 using e2 s1 by (simp add: make_slug_def Let_def sl)
  from c1(1) s1 c2(1) s2
  show "\<exists>c1 c2.
           snd (create_center lower_fn now1 id1 (u ''Assembly 1'') color1 (init on_disk))
             = SuccessCenter c1
           \<and> slug c1 = u ''assembly-1''
           \<and> snd (create_center lower_fn now2 id2 (u ''Assembly 1'') color2
                    (fst (create_center lower_fn now1 id1 (u ''Assembly 1'') color1 (init on_disk))))
               = SuccessCenter c2
           \<and> slug c2 = u ''assembly-1-2''"
    by blast
qed

theorem make_slug_spec_witness:
  "list_all (\<lambda>c. latin1_alnum c = slug_char c) (lower_latin1 (u ''  Line -- C!''))
   \<and> slugify lower_latin1 (u ''  Line -- C!'') = slug_spec latin1_alnum lower_latin1 (u ''  Line -- C!'')
   \<and> slug_spec slug_char lower_latin1 (u ''  Line -- C!'') = u ''line-c''
   \<and> slug_spec slug_char lower_latin1 (u ''  Line -- C!'')
        \<notin> set (map (\<lambda>(k, c). slug c) (centers ex_state))
   \<and> make_slug lower_latin1 (centers ex_state) (u ''  Line -- C!'') = u ''line-c''
   \<and> slug_spec slug_char lower_latin1 (u ''Line A'') \<in> set (map (\<lambda>(k, c). slug c) (centers ex_state))
   \<and> (\<exists>n\<ge>2. make_slug lower_latin1 (centers ex_state) (u ''Line A'')
                = u ''line-a'' @ u ''-'' @ u (str_nat n))
   \<and> make_slug lower_latin1 (centers ex_state) (u ''Line A'')
        \<notin> set (map (\<lambda>(k, c). slug c) (centers ex_state))
   \<and> lower_latin1 (u ''Assembly 1'') = u ''assembly 1''
   \<and> (\<exists>c1 c2.
        snd (create_center lower_latin1 ''t0'' ''c1'' (u ''Assembly 1'') None (init {}))
          = SuccessCenter c1
        \<and> slug c1 = u ''assembly-1''
        \<and> snd (create_center lower_latin1 ''t1'' ''c2'' (u ''Assembly 1'') None
                 (fst (create_center lower_latin1 ''t0'' ''c1'' (u ''Assembly 1'') None (init {}))))
            = SuccessCenter c2
        \<and> slug c2 = u ''assembly-1-2'')"
proof -
  have t: "map (\<lambda>(k, c). slug c) (centers ex_state) = [u ''line-a'', u ''line-b'']"
    by (simp add: ex_state_def ex_center_def ex_other_def)
  have al: "list_all (\<lambda>c. latin1_alnum c = slug_char c) (lower_latin1 (u ''  Line -- C!''))"
    by code_simp
  then have al': "\<forall>c\<in>set (lower_latin1 (u ''  Line -- C!'')). latin1_alnum c = slug_char c"
    by (simp add: list_all_iff)
  have c: "slug_spec slug_char lower_latin1 (u ''  Line -- C!'') = u ''line-c''" by code_simp
  have a: "slug_spec slug_char lower_latin1 (u ''Line A'') = u ''line-a''" by code_simp
  have n: "u ''line-c'' \<notin> set [u ''line-a'', u ''line-b'']" by code_simp
  have free: "slug_spec slug_char lower_latin1 (u ''  Line -- C!'')
      \<notin> set (map (\<lambda>(k, c). slug c) (centers ex_state))"
    unfolding t c by (rule n)
  have used: "slug_spec slug_char lower_latin1 (u ''Line A'')
      \<in> set (map (\<lambda>(k, c). slug c) (centers ex_state))"
    unfolding t a by simp
  have lw: "lower_latin1 (u ''Assembly 1'') = u ''assembly 1''" by code_simp
  note tc = make_slug_spec[where lower_fn = lower_latin1 and alnum = latin1_alnum
      and name_in = "u ''  Line -- C!''" and cs = "centers ex_state"
      and ?now1.0 = "''t0''" and ?id1.0 = "''c1''" and ?color1.0 = None and on_disk = "{}"
      and ?now2.0 = "''t1''" and ?id2.0 = "''c2''" and ?color2.0 = None]
  note ta = make_slug_spec[where lower_fn = lower_latin1 and name_in = "u ''Line A''"
      and cs = "centers ex_state"]
  from tc al' have r0: "slugify lower_latin1 (u ''  Line -- C!'')
      = slug_spec latin1_alnum lower_latin1 (u ''  Line -- C!'')"
    by blast
  from tc free have r1: "make_slug lower_latin1 (centers ex_state) (u ''  Line -- C!'') = u ''line-c''"
    unfolding c by blast
  from ta used have r2: "\<exists>n\<ge>2. make_slug lower_latin1 (centers ex_state) (u ''Line A'')
      = u ''line-a'' @ u ''-'' @ u (str_nat n)"
    unfolding a by blast
  from ta have r3: "make_slug lower_latin1 (centers ex_state) (u ''Line A'')
      \<notin> set (map (\<lambda>(k, c). slug c) (centers ex_state))"
    by blast
  from tc lw have r4: "\<exists>c1 c2.
        snd (create_center lower_latin1 ''t0'' ''c1'' (u ''Assembly 1'') None (init {}))
          = SuccessCenter c1
        \<and> slug c1 = u ''assembly-1''
        \<and> snd (create_center lower_latin1 ''t1'' ''c2'' (u ''Assembly 1'') None
                 (fst (create_center lower_latin1 ''t0'' ''c1'' (u ''Assembly 1'') None (init {}))))
            = SuccessCenter c2
        \<and> slug c2 = u ''assembly-1-2''"
    by blast
  from al r0 c free r1 used r2 r3 lw r4 show ?thesis by blast
qed

text \<open>
  The wording of the specification fails for a name with a letter outside ASCII. The
  lower-cased name \<open>caf\<close> with U+00E9 consists of four letters, so it has no run of
  non-alphanumeric characters and is its own slug in the specification's words;
  \<^verbatim>\<open>make_slug\<close> takes U+00E9 for a separator and the center gets the slug \<open>caf\<close>.
\<close>

theorem non_ascii_letter_counterexample:
  "lower_latin1 cafe = [0x63, 0x61, 0x66, 0xE9]
   \<and> list_all latin1_alnum (lower_latin1 cafe)
   \<and> slug_spec latin1_alnum lower_latin1 cafe = [0x63, 0x61, 0x66, 0xE9]
   \<and> slugify lower_latin1 cafe = u ''caf''
   \<and> make_slug lower_latin1 [] cafe = u ''caf''
   \<and> snd (create_center lower_latin1 ''t0'' ''c1'' cafe None (init {}))
       = SuccessCenter \<lparr>c_id = ''c1'', c_name = cafe, slug = u ''caf'', color = ''#2563eb'',
                         assignedDoc = None, currentPage = 0, connected = False,
                         createdAt = ''t0''\<rparr>"
  by (intro conjI; code_simp)

section \<open>Registry keys\<close>

text \<open>
  The registry of connections is a dictionary: in every reachable state its keys are
  distinct, which is the hypothesis the delivery properties above are stated under.
\<close>

lemma cascade_distinct:
  "distinct (map fst cl) \<Longrightarrow> distinct (map fst (snd (cascade doc_id cs cl)))"
proof (induction cs arbitrary: cl)
  case Nil
  then show ?case by simp
next
  case (Cons x cs)
  obtain k c where x: "x = (k, c)" by (cases x)
  show ?case
  proof (cases "references doc_id c")
    case True
    let ?cl2 = "broadcast (CENTER_UPDATED (cleared c)) (notify_center (c_id (cleared c)) DOCUMENT_REMOVED cl)"
    have "distinct (map fst ?cl2)"
      by (intro distinct_broadcast distinct_notify_center Cons.prems)
    from Cons.IH[OF this] True show ?thesis by (auto simp: x Let_def split: prod.splits)
  next
    case False
    from Cons.IH[OF Cons.prems] False show ?thesis by (auto simp: x split: prod.splits)
  qed
qed

lemma reachable_registry_distinct: "reachable s \<Longrightarrow> distinct (map fst (clients s))"
proof (induction rule: reachable.induct)
  case (r_init on_disk)
  show ?case by (simp add: init_def)
next
  case (r_upload s lower_fn parse_excel parse_word stamp now new_id upload form_name save)
  then show ?case
    by (simp add: upload_document_def Let_def distinct_broadcast
        split: option.splits prod.splits sum.splits save_outcome.splits)
next
  case (r_delete_document s doc_id)
  then show ?case
    using cascade_distinct[of "clients s" doc_id "centers s"]
    by (auto simp: delete_document_def Let_def distinct_broadcast split: option.splits prod.splits)
next
  case (r_create_center s lower_fn now new_id name_in color_in)
  then show ?case by (simp add: create_center_def Let_def distinct_broadcast)
next
  case (r_update_center s center_id name_in color_in)
  then show ?case by (simp add: update_center_def Let_def distinct_broadcast split: option.splits)
next
  case (r_delete_center s center_id)
  then show ?case by (simp add: delete_center_def Let_def distinct_broadcast)
next
  case (r_assign s center_id doc_ref)
  then show ?case
    by (simp add: assign_document_def Let_def distinct_broadcast distinct_notify_center
        split: option.splits)
next
  case (r_set_page s center_id page_in)
  then show ?case
    by (simp add: set_page_def Let_def distinct_broadcast distinct_notify_center
        split: option.splits)
next
  case (r_connect s client_id w)
  then show ?case by (simp add: ws_connect_def Let_def distinct_update split: option.splits)
next
  case (r_message s client_id msg)
  from r_message.IH show ?case by (rule handle_message_distinct)
next
  case (r_disconnect s client_id)
  then show ?case
    by (simp add: ws_disconnect_def Let_def distinct_broadcast distinct_delete split: option.splits)
next
  case (r_close s client_id)
  then show ?case by (simp add: ws_close_def distinct_update split: option.splits)
qed

end
